theory Spec2Isabelle
  imports Complex_Main "HOL-Library.Multiset" "HOL-Library.Char_ord" "HOL-Library.List_Lexorder"
begin

section \<open>Values, errors and dataframes\<close>

text \<open>
  The notebook \<^verbatim>\<open>finetune.ipynb\<close> works on pandas dataframes whose cells are strings,
  integers or the missing value. Column labels are integers (what \<^verbatim>\<open>header=None\<close>
  gives) or strings (after the rename). Every row carries its index label, which the
  split keeps. Floating-point cells play no role in the notebook's own steps and are
  not modelled.
\<close>

datatype cell = NaN | Str string | Num int

datatype col = Pos nat | Named string

datatype error =
    EmptyDataError
  | ParserError nat
  | IndexError
  | KeyError col
  | TypeError
  | ValueError string
  | ArrowInvalid

record dataframe =
  columns :: "col list"
  rows :: "(nat \<times> cell list) list"

text \<open>Sequencing of steps that may raise: the first exception ends the computation.\<close>

definition and_then :: "error + 'a \<Rightarrow> ('a \<Rightarrow> error + 'b) \<Rightarrow> error + 'b" where
  "and_then r f = (case r of Inl e \<Rightarrow> Inl e | Inr x \<Rightarrow> f x)"

fun collect :: "(error + 'a) list \<Rightarrow> error + 'a list" where
  "collect [] = Inr []"
| "collect (r # rs) =
     (case r of
        Inl e \<Rightarrow> Inl e
      | Inr x \<Rightarrow> (case collect rs of Inl e \<Rightarrow> Inl e | Inr xs \<Rightarrow> Inr (x # xs)))"

text \<open>
  Python's \<^verbatim>\<open>==\<close> on cell values, as \<^verbatim>\<open>Series.replace\<close> and \<^verbatim>\<open>Series.eq\<close> use it: a
  missing value equals nothing, a string never equals an integer.
\<close>

fun py_eq :: "cell \<Rightarrow> cell \<Rightarrow> bool" where
  "py_eq (Str s) (Str t) = (s = t)"
| "py_eq (Num a) (Num b) = (a = b)"
| "py_eq _ _ = False"

section \<open>Ingestion: \<^verbatim>\<open>read_csv\<close>, \<^verbatim>\<open>fillna\<close>, \<^verbatim>\<open>rename\<close>, \<^verbatim>\<open>replace\<close>\<close>

text \<open>
  \<^verbatim>\<open>pd.read_csv("all-data.csv", delimiter=",", encoding="latin-1", header=None)\<close>.
  The input of the model is the list of records of the file, each a list of fields
  already converted to cells (an empty or NA field is \<open>NaN\<close>); splitting lines into
  fields and inferring column types are the parser's business. What the call itself
  decides is modelled: blank lines are skipped, a file without records raises
  \<^verbatim>\<open>EmptyDataError\<close>, the first record fixes the number of columns, a later record
  with more fields raises \<^verbatim>\<open>ParserError\<close>, and a shorter record is filled with
  missing values. Columns are labelled \<open>0, 1, ...\<close> and rows indexed \<open>0, 1, ...\<close>.
\<close>

definition pad_record :: "nat \<Rightarrow> cell list \<Rightarrow> cell list" where
  "pad_record k r = r @ replicate (k - length r) NaN"

definition skip_blank_lines :: "cell list list \<Rightarrow> cell list list" where
  "skip_blank_lines recs = filter (\<lambda>r. r \<noteq> []) recs"

definition read_csv :: "cell list list \<Rightarrow> error + dataframe" where
  "read_csv recs =
     (let lines = skip_blank_lines recs in
      case lines of
        [] \<Rightarrow> Inl EmptyDataError
      | first # _ \<Rightarrow>
          (let k = length first in
           case find (\<lambda>(i, r). k < length r) (enumerate 0 lines) of
             Some (i, r) \<Rightarrow> Inl (ParserError (Suc i))
           | None \<Rightarrow>
               Inr \<lparr>columns = map Pos [0..<k],
                    rows = enumerate 0 (map (pad_record k) lines)\<rparr>))"

text \<open>\<^verbatim>\<open>DataFrame.fillna(value)\<close>: every missing cell becomes \<open>value\<close>.\<close>

definition fill_cell :: "cell \<Rightarrow> cell \<Rightarrow> cell" where
  "fill_cell v c = (if c = NaN then v else c)"

definition fillna :: "cell \<Rightarrow> dataframe \<Rightarrow> dataframe" where
  "fillna v df = df\<lparr>rows := map (\<lambda>(i, r). (i, map (fill_cell v) r)) (rows df)\<rparr>"

text \<open>
  \<^verbatim>\<open>df.rename(columns=lambda x: ["label", "sentence"][x])\<close>: the function is applied to
  every column label. Indexing the two-element list with \<open>2\<close> or more raises
  \<^verbatim>\<open>IndexError\<close>; indexing it with a string raises \<^verbatim>\<open>TypeError\<close>.
\<close>

definition column_names :: "string list" where
  "column_names = [''label'', ''sentence'']"

fun name_of_position :: "col \<Rightarrow> error + col" where
  "name_of_position (Pos x) =
     (if x < length column_names then Inr (Named (column_names ! x)) else Inl IndexError)"
| "name_of_position (Named s) = Inl TypeError"

definition rename :: "(col \<Rightarrow> error + col) \<Rightarrow> dataframe \<Rightarrow> error + dataframe" where
  "rename f df =
     and_then (collect (map f (columns df))) (\<lambda>cs. Inr (df\<lparr>columns := cs\<rparr>))"

text \<open>
  \<^verbatim>\<open>df[c]\<close> reads a column (\<^verbatim>\<open>KeyError\<close> when there is none of that label), and
  \<^verbatim>\<open>df[c] = values\<close> overwrites it row by row.
\<close>

fun position_of :: "col \<Rightarrow> col list \<Rightarrow> nat option" where
  "position_of c [] = None"
| "position_of c (d # ds) =
     (if c = d then Some 0 else map_option Suc (position_of c ds))"

definition get_column :: "dataframe \<Rightarrow> col \<Rightarrow> error + cell list" where
  "get_column df c =
     (case position_of c (columns df) of
        None \<Rightarrow> Inl (KeyError c)
      | Some j \<Rightarrow> Inr (map (\<lambda>(i, r). r ! j) (rows df)))"

definition set_column :: "dataframe \<Rightarrow> col \<Rightarrow> cell list \<Rightarrow> error + dataframe" where
  "set_column df c vs =
     (case position_of c (columns df) of
        None \<Rightarrow> Inl (KeyError c)
      | Some j \<Rightarrow>
          if length vs \<noteq> length (rows df) then Inl (ValueError ''length mismatch'')
          else Inr (df\<lparr>rows := map (\<lambda>((i, r), v). (i, r[j := v])) (zip (rows df) vs)\<rparr>))"

text \<open>
  \<^verbatim>\<open>Series.replace(to_replace, value)\<close> with two lists: a cell equal to the \<open>k\<close>-th
  entry of \<open>to_replace\<close> becomes the \<open>k\<close>-th entry of \<open>value\<close>; any other cell is kept.
\<close>

fun replace_value :: "cell list \<Rightarrow> cell list \<Rightarrow> cell \<Rightarrow> cell" where
  "replace_value (t # ts) (v # vs) x = (if py_eq x t then v else replace_value ts vs x)"
| "replace_value _ _ x = x"

definition replace :: "cell list \<Rightarrow> cell list \<Rightarrow> cell list \<Rightarrow> cell list" where
  "replace to_replace value series = map (replace_value to_replace value) series"

text \<open>The label strings of the dataset and their integer codes, as the notebook lists them.\<close>

definition label_names :: "string list" where
  "label_names = [''neutral'', ''positive'', ''negative'']"

definition label_codes :: "int list" where
  "label_codes = [0, 1, 2]"

definition encode_label :: "cell \<Rightarrow> cell" where
  "encode_label = replace_value (map Str label_names) (map Num label_codes)"

text \<open>
  The ingestion cell:
  \<^verbatim>\<open>df = pd.read_csv(...).fillna("")\<close>,
  \<^verbatim>\<open>df = df.rename(columns=lambda x: ["label", "sentence"][x])\<close>,
  \<^verbatim>\<open>df["label"] = df["label"].replace(["neutral","positive","negative"],[0,1,2])\<close>.
\<close>

definition load_raw :: "cell list list \<Rightarrow> error + dataframe" where
  "load_raw recs = and_then (read_csv recs) (\<lambda>df. Inr (fillna (Str []) df))"

definition load_dataset :: "cell list list \<Rightarrow> error + dataframe" where
  "load_dataset recs =
     and_then (load_raw recs) (\<lambda>df.
     and_then (rename name_of_position df) (\<lambda>df.
     and_then (get_column df (Named ''label'')) (\<lambda>labels.
     set_column df (Named ''label'')
       (replace (map Str label_names) (map Num label_codes) labels))))"

text \<open>\<^verbatim>\<open>df.isnull().values.any()\<close>: is some cell of the frame missing?\<close>

definition isnull_any :: "dataframe \<Rightarrow> bool" where
  "isnull_any df = list_ex (\<lambda>(i, r). list_ex (\<lambda>c. c = NaN) r) (rows df)"

section \<open>Baseline evaluation: decoding the pipeline's labels\<close>

text \<open>
  The pipeline answers every sentence with a label string and a score. The label
  strings are turned into codes with the same codes as the dataset's labels, in the
  order neutral, positive, negative.
\<close>

definition pipeline_names :: "string list" where
  "pipeline_names = [''Neutral'', ''Positive'', ''Negative'']"

definition decode_prediction :: "cell \<Rightarrow> cell" where
  "decode_prediction = replace_value (map Str pipeline_names) (map Num label_codes)"

fun concat_columns :: "cell list \<Rightarrow> cell list \<Rightarrow> (cell \<times> cell) list" where
  "concat_columns [] [] = []"
| "concat_columns (x # xs) [] = (x, NaN) # concat_columns xs []"
| "concat_columns [] (y # ys) = (NaN, y) # concat_columns [] ys"
| "concat_columns (x # xs) (y # ys) = (x, y) # concat_columns xs ys"

definition correct_column :: "cell list \<Rightarrow> cell list \<Rightarrow> bool list" where
  "correct_column labels preds = map (\<lambda>(l, p). py_eq l p) (concat_columns labels preds)"

text \<open>
  \<^verbatim>\<open>df[[c1, c2, ...]]\<close>: the frame of the listed columns, in that order; a listed
  column that the frame lacks raises \<^verbatim>\<open>KeyError\<close> (reported here for the first such
  column). \<^verbatim>\<open>reset_index(drop=True)\<close> numbers the rows \<open>0, 1, ...\<close> anew.
\<close>

definition column_position :: "dataframe \<Rightarrow> col \<Rightarrow> error + nat" where
  "column_position df c =
     (case position_of c (columns df) of None \<Rightarrow> Inl (KeyError c) | Some j \<Rightarrow> Inr j)"

definition select_columns :: "dataframe \<Rightarrow> col list \<Rightarrow> error + dataframe" where
  "select_columns df cs =
     and_then (collect (map (column_position df) cs)) (\<lambda>js.
     Inr \<lparr>columns = cs, rows = map (\<lambda>(i, r). (i, map (\<lambda>j. r ! j) js)) (rows df)\<rparr>)"

definition reset_index :: "dataframe \<Rightarrow> dataframe" where
  "reset_index df = df\<lparr>rows := enumerate 0 (map snd (rows df))\<rparr>"

text \<open>
  The cell that builds the table of the baseline's results, from the test frame and
  the list of the pipeline's answers (label string and score):
  \<^verbatim>\<open>results_df = pd.DataFrame.from_dict(results)\<close>,
  \<^verbatim>\<open>results_df["label"] = results_df["label"].replace(["Neutral", "Positive", "Negative"],[0,1,2])\<close>,
  \<^verbatim>\<open>results_df.columns = ["pred", "score"]\<close>,
  \<^verbatim>\<open>results_df = pd.concat([df_test[["sentence", "label"]].reset_index(drop=True), results_df], axis=1)\<close>,
  \<^verbatim>\<open>results_df["Correct"] = results_df["label"].eq(results_df["pred"])\<close>.
  A frame made of an empty list of answers has no column, so reading its \<^verbatim>\<open>label\<close>
  column raises \<^verbatim>\<open>KeyError\<close>; so does selecting the two columns of a test frame that
  lacks one of them. \<^verbatim>\<open>pd.concat(..., axis=1)\<close> joins on the fresh indices \<open>0, 1, ...\<close>,
  and a row that one side lacks holds missing values there. When the test frame has
  more than one column named \<^verbatim>\<open>label\<close>, the comparison yields a frame instead of a
  column and its assignment to \<^verbatim>\<open>Correct\<close> raises \<^verbatim>\<open>ValueError\<close>. The result is the
  column \<^verbatim>\<open>Correct\<close>.
\<close>

definition baseline_correct :: "dataframe \<Rightarrow> (string \<times> 's) list \<Rightarrow> error + bool list" where
  "baseline_correct df_test results =
     (if results = [] then Inl (KeyError (Named ''label''))
      else
        (let pred = replace (map Str pipeline_names) (map Num label_codes)
                      (map (\<lambda>(label, score). Str label) results)
         in and_then (select_columns df_test [Named ''sentence'', Named ''label'']) (\<lambda>truth.
            and_then (get_column (reset_index truth) (Named ''label'')) (\<lambda>labels.
            if 1 < count_list (columns df_test) (Named ''label'')
            then Inl (ValueError ''Cannot set a DataFrame with multiple columns to the single column Correct'')
            else Inr (correct_column labels pred)))))"

text \<open>
  The capitalised form of a word (its first letter in upper case): how a class name of
  the dataset corresponds to the pipeline's name of the same class.
\<close>

definition upper_case :: "char \<Rightarrow> char" where
  "upper_case c =
     (case map_of (zip ''abcdefghijklmnopqrstuvwxyz'' ''ABCDEFGHIJKLMNOPQRSTUVWXYZ'') c of
        None \<Rightarrow> c
      | Some u \<Rightarrow> u)"

fun capitalize :: "string \<Rightarrow> string" where
  "capitalize [] = []"
| "capitalize (c # cs) = upper_case c # cs"

section \<open>The train/validation/test split\<close>

subsection \<open>The random generator\<close>

text \<open>
  scikit-learn draws from a numpy \<^verbatim>\<open>RandomState\<close>. Its algorithm is not modelled: a
  generator is given by the state \<open>seeded s\<close> of a generator freshly seeded with \<open>s\<close>
  and by \<open>permutation g n\<close>, the result of \<^verbatim>\<open>rng.permutation(n)\<close> in state \<open>g\<close> together
  with the state it leaves. \<^verbatim>\<open>check_random_state(seed)\<close> is the ambient (global)
  generator for \<^verbatim>\<open>None\<close> and a fresh generator seeded with the integer otherwise.
\<close>

record 'g generator =
  seeded :: "nat \<Rightarrow> 'g"
  permutation :: "'g \<Rightarrow> nat \<Rightarrow> nat list \<times> 'g"

definition check_random_state :: "'g generator \<Rightarrow> 'g \<Rightarrow> nat option \<Rightarrow> 'g" where
  "check_random_state R ambient seed =
     (case seed of None \<Rightarrow> ambient | Some s \<Rightarrow> seeded R s)"

text \<open>
  \<^verbatim>\<open>rng.permutation(xs)\<close> of a list shuffles a copy of it, and
  \<^verbatim>\<open>rng.choice(a, size=k, replace=False)\<close> is \<^verbatim>\<open>a[rng.permutation(len(a))[:k]]\<close>.
\<close>

definition shuffled :: "'g generator \<Rightarrow> 'g \<Rightarrow> 'a list \<Rightarrow> 'a list \<times> 'g" where
  "shuffled R g xs =
     (case permutation R g (length xs) of (p, g') \<Rightarrow> (map (\<lambda>j. xs ! j) p, g'))"

definition choice :: "'g generator \<Rightarrow> 'g \<Rightarrow> 'a list \<Rightarrow> nat \<Rightarrow> 'a list \<times> 'g" where
  "choice R g a k =
     (case permutation R g (length a) of (p, g') \<Rightarrow> (map (\<lambda>j. a ! j) (take k p), g'))"

subsection \<open>\<^verbatim>\<open>_approximate_mode\<close>\<close>

text \<open>
  \<^verbatim>\<open>_approximate_mode(class_counts, n_draws, rng)\<close> distributes \<open>n_draws\<close> over the
  classes in proportion to their counts: every class gets the floor of its share
  \<^verbatim>\<open>class_counts / class_counts.sum() * n_draws\<close>, and the draws still missing go, one
  each, to the classes with the largest remainders, ties broken by \<^verbatim>\<open>rng.choice\<close>.
  With counts that sum to zero the shares are not numbers and the conversion to an
  integer raises.

  Shares are exact rationals here, where scikit-learn computes them in 64-bit floats.
  A float share can differ from the exact one in its last place, and so can its
  remainder: for the counts 15 and 35 and 45 draws both exact remainders are one half,
  a tie that the generator breaks, while the float remainders differ and the first
  class gets the missing draw. On such inputs the model and the code can disagree on
  which class gets a missing draw.
\<close>

definition increment :: "nat list \<Rightarrow> int list \<Rightarrow> int list" where
  "increment inds floored = fold (\<lambda>i f. f[i := f ! i + 1]) inds floored"

fun add_remainders ::
    "'g generator \<Rightarrow> rat list \<Rightarrow> rat list \<Rightarrow> int list \<Rightarrow> int \<Rightarrow> 'g \<Rightarrow> int list \<times> 'g" where
  "add_remainders R remainder [] floored need_to_add g = (floored, g)"
| "add_remainders R remainder (v # values) floored need_to_add g =
     (let inds = filter (\<lambda>i. remainder ! i = v) [0..<length remainder];
          add_now = min (int (length inds)) need_to_add
      in case choice R g inds (nat add_now) of (inds, g) \<Rightarrow>
         (let floored = increment inds floored;
              need_to_add = need_to_add - add_now
          in if need_to_add = 0 then (floored, g)
             else add_remainders R remainder values floored need_to_add g))"

definition approximate_mode ::
    "'g generator \<Rightarrow> int list \<Rightarrow> int \<Rightarrow> 'g \<Rightarrow> error + int list \<times> 'g" where
  "approximate_mode R class_counts n_draws g =
     (if class_counts \<noteq> [] \<and> sum_list class_counts = 0
      then Inl (ValueError ''cannot convert float NaN to integer'')
      else
        (let continuous =
               map (\<lambda>c. of_int c / of_int (sum_list class_counts) * of_int n_draws) class_counts;
             floored = map floor continuous;
             need_to_add = n_draws - sum_list floored
         in if need_to_add > 0
            then
              (let remainder = map (\<lambda>(c, f). c - of_int f) (zip continuous floored);
                   values = rev (sorted_list_of_set (set remainder))
               in Inr (add_remainders R remainder values floored need_to_add g))
            else Inr (floored, g)))"

subsection \<open>\<^verbatim>\<open>StratifiedShuffleSplit\<close>\<close>

text \<open>
  \<^verbatim>\<open>np.unique(y)\<close>: the distinct values in ascending order. Integers are ordered as
  numbers and strings by code points; comparing a string with an integer raises
  \<^verbatim>\<open>TypeError\<close>.
\<close>

fun the_num :: "cell \<Rightarrow> int option" where
  "the_num (Num n) = Some n"
| "the_num _ = None"

fun the_str :: "cell \<Rightarrow> string option" where
  "the_str (Str s) = Some s"
| "the_str _ = None"

definition unique :: "cell list \<Rightarrow> error + cell list" where
  "unique y =
     (if list_all (\<lambda>v. the_num v \<noteq> None) y
      then Inr (map Num (sorted_list_of_set (set (List.map_filter the_num y))))
      else if list_all (\<lambda>v. the_str v \<noteq> None) y
      then Inr (map Str (sorted_list_of_set (set (List.map_filter the_str y))))
      else Inl TypeError)"

text \<open>Python's slice \<^verbatim>\<open>xs[a:b]\<close>, and \<^verbatim>\<open>xs.take(idx, mode="clip")\<close>.\<close>

definition bound :: "nat \<Rightarrow> int \<Rightarrow> nat" where
  "bound n a = (if a < 0 then nat (max 0 (int n + a)) else min (nat a) n)"

definition slice :: "'a list \<Rightarrow> int \<Rightarrow> int \<Rightarrow> 'a list" where
  "slice xs a b =
     (let lo = bound (length xs) a; hi = bound (length xs) b
      in take (hi - lo) (drop lo xs))"

definition take_clip :: "'a list \<Rightarrow> nat list \<Rightarrow> 'a list" where
  "take_clip xs idx = map (\<lambda>j. xs ! min j (length xs - 1)) idx"

text \<open>
  The loop of \<^verbatim>\<open>_iter_indices\<close> over the classes: the members of class \<open>i\<close> are
  permuted, the first \<open>n_i[i]\<close> of them go to the training part and the next \<open>t_i[i]\<close>
  to the test part.
\<close>

definition class_step ::
    "'g generator \<Rightarrow> nat list list \<Rightarrow> int list \<Rightarrow> int list \<Rightarrow> nat \<Rightarrow>
     (nat list \<times> nat list) \<times> 'g \<Rightarrow> (nat list \<times> nat list) \<times> 'g" where
  "class_step R class_indices n_i t_i i s =
     (case s of ((train, test), g) \<Rightarrow>
      case permutation R g (length (class_indices ! i)) of (perm, g) \<Rightarrow>
        (let perm_indices_class_i = take_clip (class_indices ! i) perm
         in ((train @ slice perm_indices_class_i 0 (n_i ! i),
              test @ slice perm_indices_class_i (n_i ! i) (n_i ! i + t_i ! i)), g)))"

text \<open>
  \<^verbatim>\<open>StratifiedShuffleSplit(test_size=n_test, train_size=n_train,
  random_state=random_state).split(X, y)\<close>, first split: the positions of the training
  and of the test rows. \<^verbatim>\<open>np.unique(y, return_inverse=True)\<close>, \<^verbatim>\<open>np.bincount\<close> and the
  split of the stable argsort give, for each class in ascending order, its count and
  the ascending positions of its members.
\<close>

definition iter_indices ::
    "'g generator \<Rightarrow> 'g \<Rightarrow> cell list \<Rightarrow> cell list \<Rightarrow> int list \<Rightarrow> nat \<Rightarrow> nat \<Rightarrow>
     error + nat list \<times> nat list" where
  "iter_indices R rng y classes class_counts n_train n_test =
     (let class_indices = map (\<lambda>c. filter (\<lambda>p. y ! p = c) [0..<length y]) classes
      in and_then (approximate_mode R class_counts (int n_train) rng) (\<lambda>(n_i, rng).
         let class_counts_remaining = map (\<lambda>(c, n). c - n) (zip class_counts n_i)
         in and_then (approximate_mode R class_counts_remaining (int n_test) rng) (\<lambda>(t_i, rng).
            case fold (class_step R class_indices n_i t_i) [0..<length classes] (([], []), rng)
            of ((train, test), rng) \<Rightarrow>
              (case shuffled R rng train of (train, rng) \<Rightarrow>
                (case shuffled R rng test of (test, rng) \<Rightarrow> Inr (train, test))))))"

definition stratified_shuffle_split ::
    "'g generator \<Rightarrow> 'g \<Rightarrow> nat option \<Rightarrow> nat \<Rightarrow> nat \<Rightarrow> cell list \<Rightarrow>
     error + nat list \<times> nat list" where
  "stratified_shuffle_split R ambient random_state n_train n_test y =
     (if NaN \<in> set y then Inl (ValueError ''Input contains NaN'')
      else
        and_then (unique y) (\<lambda>classes.
          (let n_classes = length classes;
               class_counts = map (\<lambda>c. int (count_list y c)) classes
           in if class_counts = []
              then Inl (ValueError ''zero-size array to reduction operation minimum'')
              else if Min (set class_counts) < 2
              then Inl (ValueError ''The least populated class in y has only 1 member'')
              else if n_train < n_classes
              then Inl (ValueError ''The train_size should be greater or equal to the number of classes'')
              else if n_test < n_classes
              then Inl (ValueError ''The test_size should be greater or equal to the number of classes'')
              else iter_indices R (check_random_state R ambient random_state) y classes
                     class_counts n_train n_test)))"

subsection \<open>\<^verbatim>\<open>train_test_split\<close> and the notebook's two calls\<close>

text \<open>
  \<^verbatim>\<open>_validate_shuffle_split\<close> for a fractional \<open>test_size\<close> and no \<open>train_size\<close>: the
  test part has \<open>ceil(test_size * n_samples)\<close> rows and the training part the rest,
  which must not be empty. (For the sizes a frame can have, the float product has the
  ceiling of the exact product.)
\<close>

definition validate_shuffle_split :: "nat \<Rightarrow> rat \<Rightarrow> error + nat \<times> nat" where
  "validate_shuffle_split n_samples test_size =
     (if test_size \<le> 0 \<or> test_size \<ge> 1
      then Inl (ValueError ''test_size should be in the (0, 1) range'')
      else
        (let n_test = nat \<lceil>test_size * of_nat n_samples\<rceil>;
             n_train = n_samples - n_test
         in if n_train = 0
            then Inl (ValueError ''the resulting train set will be empty'')
            else Inr (n_train, n_test)))"

text \<open>\<^verbatim>\<open>df.iloc[positions]\<close>: the rows at the positions, in that order, with their index labels.\<close>

definition iloc :: "dataframe \<Rightarrow> nat list \<Rightarrow> dataframe" where
  "iloc df positions = df\<lparr>rows := map (\<lambda>p. rows df ! p) positions\<rparr>"

text \<open>
  \<^verbatim>\<open>train_test_split(df, stratify=y, test_size=t, random_state=s)\<close>: the frame and the
  stratification column must have one length; the frame is cut at the positions that
  the stratified shuffle split returns.
\<close>

definition train_test_split ::
    "'g generator \<Rightarrow> 'g \<Rightarrow> dataframe \<Rightarrow> cell list \<Rightarrow> rat \<Rightarrow> nat option \<Rightarrow>
     error + dataframe \<times> dataframe" where
  "train_test_split R ambient df stratify test_size random_state =
     (if length stratify \<noteq> length (rows df)
      then Inl (ValueError ''Found input variables with inconsistent numbers of samples'')
      else
        and_then (validate_shuffle_split (length (rows df)) test_size) (\<lambda>(n_train, n_test).
        and_then (stratified_shuffle_split R ambient random_state n_train n_test stratify)
          (\<lambda>(train, test).
        Inr (iloc df train, iloc df test))))"

text \<open>
  The split cell:
  \<^verbatim>\<open>df_train, df_test, = train_test_split(df, stratify=df["label"], test_size=0.1, random_state=42)\<close>,
  \<^verbatim>\<open>df_train, df_val = train_test_split(df_train, stratify=df_train["label"],test_size=0.1, random_state=42)\<close>.
  The result is the triple of the training, validation and test frames.
\<close>

definition split_dataset ::
    "'g generator \<Rightarrow> 'g \<Rightarrow> dataframe \<Rightarrow> error + dataframe \<times> dataframe \<times> dataframe" where
  "split_dataset R ambient df =
     and_then (get_column df (Named ''label'')) (\<lambda>labels.
     and_then (train_test_split R ambient df labels (1/10) (Some 42)) (\<lambda>(df_train, df_test).
     and_then (get_column df_train (Named ''label'')) (\<lambda>labels.
     and_then (train_test_split R ambient df_train labels (1/10) (Some 42)) (\<lambda>(df_train, df_val).
     Inr (df_train, df_val, df_test)))))"

section \<open>Tokenization\<close>

text \<open>
  The tokenizer is the pretrained model's \<^verbatim>\<open>BertTokenizer\<close>. Its vocabulary and the
  splitting of a text into word pieces are not modelled: \<open>wordpiece\<close> gives the ids of
  the word pieces of a text, and the ids of the special tokens are fields.
\<close>

record tokenizer =
  wordpiece :: "string \<Rightarrow> nat list"
  cls_token_id :: nat
  sep_token_id :: nat
  pad_token_id :: nat

record encoding =
  input_ids :: "nat list"
  token_type_ids :: "nat list"
  attention_mask :: "nat list"

text \<open>
  \<^verbatim>\<open>tokenizer(text, truncation=True, padding="max_length", max_length=n)\<close> for one text:
  when the word pieces and the two special tokens are more than \<open>n\<close>, the surplus is
  removed from the end of the word pieces; \<^verbatim>\<open>[CLS]\<close> and \<^verbatim>\<open>[SEP]\<close> are put around them;
  the three lists are then filled up on the right to \<open>n\<close> entries, with the padding id,
  with token type \<open>0\<close> and with mask \<open>0\<close>.
\<close>

definition truncate_ids :: "nat \<Rightarrow> nat list \<Rightarrow> nat list" where
  "truncate_ids n ids =
     (let total_len = length ids + 2;
          num_tokens_to_remove = total_len - n
      in take (length ids - num_tokens_to_remove) ids)"

definition tokenizer_call :: "tokenizer \<Rightarrow> nat \<Rightarrow> string \<Rightarrow> encoding" where
  "tokenizer_call tok n text =
     (let ids = truncate_ids n (wordpiece tok text);
          ids = cls_token_id tok # ids @ [sep_token_id tok];
          difference = n - length ids
      in \<lparr>input_ids = ids @ replicate difference (pad_token_id tok),
          token_type_ids = replicate (length ids) 0 @ replicate difference 0,
          attention_mask = replicate (length ids) 1 @ replicate difference 0\<rparr>)"

text \<open>
  \<^verbatim>\<open>Dataset.from_pandas(df)\<close> converts every column to an Arrow array of one type. A
  column that holds both strings and integers cannot be converted and raises (an
  \<^verbatim>\<open>ArrowInvalid\<close> or \<^verbatim>\<open>ArrowTypeError\<close>, one error here); missing values are
  allowed in any column. Two columns of one name raise \<^verbatim>\<open>ValueError\<close>. The index
  column that the conversion adds plays no role and is left out.
\<close>

fun is_str :: "cell \<Rightarrow> bool" where
  "is_str (Str s) = True"
| "is_str _ = False"

fun is_num :: "cell \<Rightarrow> bool" where
  "is_num (Num n) = True"
| "is_num _ = False"

definition column_values :: "dataframe \<Rightarrow> nat \<Rightarrow> cell list" where
  "column_values df j = map (\<lambda>(i, r). r ! j) (rows df)"

definition from_pandas :: "dataframe \<Rightarrow> error + dataframe" where
  "from_pandas df =
     (if \<not> distinct (columns df) then Inl (ValueError ''Duplicate column names found'')
      else if list_ex (\<lambda>j. list_ex is_str (column_values df j) \<and> list_ex is_num (column_values df j))
           [0..<length (columns df)]
      then Inl ArrowInvalid
      else Inr df)"

text \<open>
  \<^verbatim>\<open>dataset = Dataset.from_pandas(df)\<close>,
  \<^verbatim>\<open>dataset.map(lambda e: tokenizer(e["sentence"], truncation=True,
  padding="max_length", max_length=315), batched=True)\<close>: every record of the dataset
  gets the encoding of its sentence. A sentence that is not a string makes the
  tokenizer raise. The result is the list of the encodings, one per record.
\<close>

definition max_length :: nat where
  "max_length = 315"

fun tokenize_cell :: "tokenizer \<Rightarrow> cell \<Rightarrow> error + encoding" where
  "tokenize_cell tok (Str s) = Inr (tokenizer_call tok max_length s)"
| "tokenize_cell tok _ = Inl (ValueError ''text input must be of type str'')"

definition tokenize_dataset :: "tokenizer \<Rightarrow> dataframe \<Rightarrow> error + encoding list" where
  "tokenize_dataset tok df =
     and_then (from_pandas df) (\<lambda>dataset.
     and_then (get_column dataset (Named ''sentence'')) (\<lambda>sentences.
     collect (map (tokenize_cell tok) sentences)))"

section \<open>The metric callback \<^verbatim>\<open>compute_metrics\<close>\<close>

text \<open>
  \<^verbatim>\<open>np.argmax(predictions, axis=1)\<close>: for every row of the score matrix, the index of its
  first largest entry; a row without entries raises \<^verbatim>\<open>ValueError\<close>. The matrix is the
  list of its rows, and scores are taken from a linear order (there is no
  not-a-number among them).
\<close>

fun argmax_from :: "'a::linorder \<Rightarrow> nat \<Rightarrow> nat \<Rightarrow> 'a list \<Rightarrow> nat" where
  "argmax_from best bi i [] = bi"
| "argmax_from best bi i (x # xs) =
     (if best < x then argmax_from x i (Suc i) xs else argmax_from best bi (Suc i) xs)"

definition argmax_row :: "'a::linorder list \<Rightarrow> error + nat" where
  "argmax_row row =
     (case row of
        [] \<Rightarrow> Inl (ValueError ''attempt to get argmax of an empty sequence'')
      | x # xs \<Rightarrow> Inr (argmax_from x 0 1 xs))"

definition np_argmax :: "'a::linorder list list \<Rightarrow> error + nat list" where
  "np_argmax predictions = collect (map argmax_row predictions)"

text \<open>
  \<^verbatim>\<open>sklearn.metrics.accuracy_score(y_true, y_pred)\<close>: the two arrays must have one
  length (\<^verbatim>\<open>ValueError\<close> otherwise); the result is the mean of the elementwise
  comparison, which for empty arrays is not a number. The mean is kept as an exact
  fraction; its rounding to a float is not modelled.
\<close>

datatype score = Value rat | NotANumber

definition accuracy_score :: "int list \<Rightarrow> int list \<Rightarrow> error + score" where
  "accuracy_score y_true y_pred =
     (if length y_true \<noteq> length y_pred
      then Inl (ValueError ''Found input variables with inconsistent numbers of samples'')
      else if y_true = [] then Inr NotANumber
      else Inr (Value (of_nat (length (filter (\<lambda>(a, b). a = b) (zip y_true y_pred)))
                       / of_nat (length y_true))))"

text \<open>
  \<^verbatim>\<open>def compute_metrics(eval_pred):\<close>
  \<^verbatim>\<open>    predictions, labels = eval_pred\<close>
  \<^verbatim>\<open>    predictions = np.argmax(predictions, axis=1)\<close>
  \<^verbatim>\<open>    return {"accuracy" : accuracy_score(predictions, labels)}\<close>
\<close>

definition compute_metrics ::
    "'a::linorder list list \<times> int list \<Rightarrow> error + (string \<times> score) list" where
  "compute_metrics eval_pred =
     (case eval_pred of (predictions, labels) \<Rightarrow>
        and_then (np_argmax predictions) (\<lambda>predictions.
        and_then (accuracy_score (map int predictions) labels) (\<lambda>a.
        Inr [(''accuracy'', a)])))"

section \<open>Notions used in the statements\<close>

text \<open>The label column of a frame, and whether it holds only the codes of the three classes.\<close>

definition labels_of :: "dataframe \<Rightarrow> cell list" where
  "labels_of df = (case get_column df (Named ''label'') of Inl e \<Rightarrow> [] | Inr vs \<Rightarrow> vs)"

definition labels_in_classes :: "dataframe \<Rightarrow> bool" where
  "labels_in_classes df = list_all (\<lambda>v. v \<in> set (map Num label_codes)) (labels_of df)"


text \<open>
  What the ingestion cell leaves in the label column for a label field of the file:
  the code of one of the three class names, the empty string for a missing field, and
  any other value itself.
\<close>

fun after_encoding :: "cell \<Rightarrow> cell" where
  "after_encoding NaN = Str []"
| "after_encoding (Num n) = Num n"
| "after_encoding (Str s) =
     (if s = ''neutral'' then Num 0
      else if s = ''positive'' then Num 1
      else if s = ''negative'' then Num 2
      else Str s)"

text \<open>A label cell that the encoding turns into (or leaves as) one of the three codes.\<close>

definition encodable :: "cell \<Rightarrow> bool" where
  "encodable v = (v \<in> set (map Str label_names) \<or> v \<in> set (map Num label_codes))"

text \<open>Frames without a missing cell, and frames whose rows have one cell per column.\<close>

definition no_nan :: "dataframe \<Rightarrow> bool" where
  "no_nan df = (\<forall>(i, r) \<in> set (rows df). NaN \<notin> set r)"

definition well_formed :: "dataframe \<Rightarrow> bool" where
  "well_formed df = (\<forall>(i, r) \<in> set (rows df). length r = length (columns df))"

text \<open>
  Example inputs. \<open>sample_records\<close> has a blank line, a record without its sentence
  field and a record whose sentence is missing; \<open>mixed_records\<close> has a label that is
  none of the three class names.
\<close>

definition sample_records :: "cell list list" where
  "sample_records =
     [[Str ''neutral'', Str ''Sales were flat''],
      [],
      [Str ''positive''],
      [Str ''negative'', NaN]]"

definition sample_frame :: dataframe where
  "sample_frame =
     \<lparr>columns = [Named ''label'', Named ''sentence''],
      rows = [(0, [Num 0, Str ''Sales were flat'']), (1, [Num 1, Str []]), (2, [Num 2, Str []])]\<rparr>"

definition mixed_records :: "cell list list" where
  "mixed_records =
     [[Str ''neutral'', Str ''Sales were flat''],
      [Str ''mixed'', Str ''The outlook is unclear'']]"

definition mixed_frame :: dataframe where
  "mixed_frame =
     \<lparr>columns = [Named ''label'', Named ''sentence''],
      rows = [(0, [Num 0, Str ''Sales were flat'']),
              (1, [Str ''mixed'', Str ''The outlook is unclear''])]\<rparr>"

text \<open>A two-row test frame and the pipeline's answers for it.\<close>

definition sample_test_frame :: dataframe where
  "sample_test_frame =
     \<lparr>columns = [Named ''label'', Named ''sentence''],
      rows = [(7, [Num 1, Str ''Ruukki has signed a contract'']),
              (3, [Num 0, Str ''The Group has cumulative sales''])]\<rparr>"

definition sample_answers :: "(string \<times> rat) list" where
  "sample_answers = [(''Neutral'', 999923 / 1000000), (''Neutral'', 99998 / 100000)]"

text \<open>
  The metric in the spec's words. The argmax of a row over the class axis is the first
  index that holds a largest score, and the accuracy of a score matrix against a list
  of labels is the fraction of rows whose argmax is the row's label.
\<close>

definition row_argmax :: "'a::linorder list \<Rightarrow> nat" where
  "row_argmax row = (LEAST i. i < length row \<and> (\<forall>j < length row. row ! j \<le> row ! i))"

definition argmax_accuracy :: "'a::linorder list list \<Rightarrow> int list \<Rightarrow> rat" where
  "argmax_accuracy predictions labels =
     of_nat (card {i. i < length predictions \<and> int (row_argmax (predictions ! i)) = labels ! i})
       / of_nat (length predictions)"

text \<open>Scores of two rows over three classes, and their labels.\<close>

definition sample_scores :: "rat list list" where
  "sample_scores = [[1/10, 7/10, 2/10], [5/10, 5/10, 0]]"

definition sample_labels :: "int list" where
  "sample_labels = [1, 2]"

text \<open>
  What the split needs of the generator: \<^verbatim>\<open>rng.permutation(n)\<close> returns a permutation
  of \<open>0, ..., n - 1\<close>.
\<close>

definition permutes :: "'g generator \<Rightarrow> bool" where
  "permutes R = (\<forall>g n. mset (fst (permutation R g n)) = mset [0..<n])"

text \<open>
  A stand-in generator for the examples: its state is a counter, and the permutation
  it returns is the rotation of \<open>0, ..., n - 1\<close> by the counter.
\<close>

definition rotating :: "nat generator" where
  "rotating = \<lparr>seeded = (\<lambda>s. s), permutation = (\<lambda>g n. (rotate g [0..<n], Suc g))\<rparr>"

text \<open>
  \<open>rounded_share a c n N\<close>: the whole number \<open>a\<close> is the share \<open>c * n / N\<close> of a class
  with \<open>c\<close> of \<open>N\<close> rows in a part of \<open>n\<close> rows, rounded down or up.
\<close>

definition rounded_share :: "int \<Rightarrow> int \<Rightarrow> int \<Rightarrow> int \<Rightarrow> bool" where
  "rounded_share a c n N =
     (a = (c * n) div N \<or> (a = (c * n) div N + 1 \<and> (c * n) mod N \<noteq> 0))"

text \<open>The number of rows of a frame, and how many of them carry a given label.\<close>

definition n_rows :: "dataframe \<Rightarrow> int" where
  "n_rows df = int (length (rows df))"

definition label_count :: "dataframe \<Rightarrow> cell \<Rightarrow> int" where
  "label_count df c = int (count_list (labels_of df) c)"

text \<open>The fraction of the rows of a frame that carry a given label.\<close>

definition label_fraction :: "dataframe \<Rightarrow> cell \<Rightarrow> rat" where
  "label_fraction df c = of_int (label_count df c) / of_int (n_rows df)"

text \<open>The index labels of a frame.\<close>

definition index_of :: "dataframe \<Rightarrow> nat list" where
  "index_of df = map fst (rows df)"

text \<open>
  A frame of thirteen encoded headlines, seven neutral and six positive, and the three
  frames that the split cell makes of it with the stand-in generator.
\<close>

definition headlines :: dataframe where
  "headlines =
     \<lparr>columns = [Named ''label'', Named ''sentence''],
      rows = map (\<lambda>i. (i, [Num (if i < 7 then 0 else 1), Str ''headline''])) [0..<13]\<rparr>"

definition headlines_train :: dataframe where
  "headlines_train =
     \<lparr>columns = [Named ''label'', Named ''sentence''],
      rows = [(3, [Num 0, Str ''headline'']), (4, [Num 0, Str ''headline'']),
              (5, [Num 0, Str ''headline'']), (6, [Num 0, Str ''headline'']),
              (1, [Num 0, Str ''headline'']), (7, [Num 1, Str ''headline'']),
              (9, [Num 1, Str ''headline'']), (10, [Num 1, Str ''headline'']),
              (11, [Num 1, Str ''headline''])]\<rparr>"

definition headlines_val :: dataframe where
  "headlines_val =
     \<lparr>columns = [Named ''label'', Named ''sentence''],
      rows = [(2, [Num 0, Str ''headline'']), (12, [Num 1, Str ''headline''])]\<rparr>"

definition headlines_test :: dataframe where
  "headlines_test =
     \<lparr>columns = [Named ''label'', Named ''sentence''],
      rows = [(0, [Num 0, Str ''headline'']), (8, [Num 1, Str ''headline''])]\<rparr>"

text \<open>
  A stand-in tokenizer (one word piece per character) and a frame with a short
  sentence and one of four hundred characters.
\<close>

definition character_tokenizer :: tokenizer where
  "character_tokenizer =
     \<lparr>wordpiece = map of_char, cls_token_id = 101, sep_token_id = 102, pad_token_id = 0\<rparr>"

definition long_frame :: dataframe where
  "long_frame =
     \<lparr>columns = [Named ''label'', Named ''sentence''],
      rows = [(0, [Num 1, Str ''Profits rose'']), (1, [Num 0, Str (replicate 400 (CHR ''a''))])]\<rparr>"










section \<open>Sequencing and frames: basic facts\<close>

lemma and_then_Inr:
  "and_then r f = Inr y \<longleftrightarrow> (\<exists>x. r = Inr x \<and> f x = Inr y)"
  by (cases r) (simp_all add: and_then_def)

lemma and_then_Inl: "and_then (Inl e) f = Inl e"
  by (simp add: and_then_def)

lemma length_collect: "collect rs = Inr xs \<Longrightarrow> length xs = length rs"
  by (induction rs arbitrary: xs) (auto split: sum.splits)

lemma collect_Inr_all: "collect rs = Inr xs \<Longrightarrow> rs = map Inr xs"
  by (induction rs arbitrary: xs) (auto split: sum.splits)

lemma position_of_less: "position_of c cs = Some j \<Longrightarrow> j < length cs"
  by (induction cs arbitrary: j) (auto split: if_splits)

lemma get_column_map:
  assumes "get_column df c = Inr y"
  shows "\<exists>j. position_of c (columns df) = Some j \<and> y = map (\<lambda>(i, r). r ! j) (rows df)"
  using assms by (auto simp: get_column_def split: option.splits)

lemma map_snd_enumerate: "map (\<lambda>(i, r). f r) (enumerate n xs) = map f xs"
  by (induction xs arbitrary: n) auto

lemma map_enumerate_snd:
  "map (\<lambda>(i, r). (i, f r)) (enumerate n xs) = enumerate n (map f xs)"
  by (induction xs arbitrary: n) auto

lemma find_None_all: "find P xs = None \<Longrightarrow> x \<in> set xs \<Longrightarrow> \<not> P x"
  by (simp add: find_None_iff)

lemma isnull_any_iff: "isnull_any df = (\<not> no_nan df)"
  by (auto simp: isnull_any_def no_nan_def list_ex_iff)

section \<open>Label encoding\<close>

lemma encode_label_simps:
  "encode_label (Str ''neutral'') = Num 0"
  "encode_label (Str ''positive'') = Num 1"
  "encode_label (Str ''negative'') = Num 2"
  by (simp_all add: encode_label_def label_names_def label_codes_def)

text \<open>
  C1. The label encoding of the ingestion step is a bijection between the three label
  strings neutral, positive, negative and the integer codes 0, 1, 2: each string has
  one code, distinct strings have distinct codes, and every code is the image of one
  of the strings.
\<close>

theorem encode_label_bijection:
  "bij_betw encode_label (Str ` set label_names) (Num ` set label_codes)"
  unfolding bij_betw_def inj_on_def
  by (auto simp: label_names_def label_codes_def encode_label_simps)

section \<open>Ingestion leaves no missing value\<close>

lemma read_csv_Inr:
  assumes "read_csv recs = Inr df"
  shows "\<exists>k. 0 < k \<and> columns df = map Pos [0..<k] \<and>
           rows df = enumerate 0 (map (pad_record k) (skip_blank_lines recs)) \<and>
           (\<forall>r \<in> set (skip_blank_lines recs). length r \<le> k)"
proof -
  define ls where "ls = skip_blank_lines recs"
  from assms obtain first rest where ls: "ls = first # rest"
    by (auto simp: read_csv_def Let_def ls_def split: list.splits)
  define k where "k = length first"
  have "first \<in> set ls" by (simp add: ls)
  then have kpos: "0 < k" by (auto simp: ls_def k_def skip_blank_lines_def)
  from assms have "read_csv recs = Inr df" .
  then have none: "find (\<lambda>(i, r). k < length r) (enumerate 0 ls) = None"
    and df: "df = \<lparr>columns = map Pos [0..<k], rows = enumerate 0 (map (pad_record k) ls)\<rparr>"
    unfolding read_csv_def Let_def ls_def[symmetric] ls list.case k_def[symmetric]
    by (auto split: option.splits)
  have "length r \<le> k" if "r \<in> set ls" for r
  proof -
    from that obtain n where "n < length ls" "ls ! n = r" by (auto simp: in_set_conv_nth)
    then have "(n, r) \<in> set (enumerate 0 ls)" by (auto simp: in_set_enumerate_eq)
    with none have "\<not> (\<lambda>(i, r). k < length r) (n, r)" by (rule find_None_all)
    then show ?thesis by simp
  qed
  with kpos df show ?thesis unfolding ls_def by auto
qed

lemma length_pad_record: "length r \<le> k \<Longrightarrow> length (pad_record k r) = k"
  by (simp add: pad_record_def)

lemma well_formed_read_csv:
  assumes "read_csv recs = Inr df"
  shows "well_formed df"
proof -
  from read_csv_Inr[OF assms] obtain k where
    c: "columns df = map Pos [0..<k]" and
    r: "rows df = enumerate 0 (map (pad_record k) (skip_blank_lines recs))" and
    l: "\<forall>r \<in> set (skip_blank_lines recs). length r \<le> k"
    by blast
  have "length x = k" if "x \<in> set (map (pad_record k) (skip_blank_lines recs))" for x
    using that l by (auto simp: length_pad_record)
  then show ?thesis
    unfolding well_formed_def c r by (auto simp: in_set_enumerate_eq)
qed

lemma well_formed_fillna: "well_formed df \<Longrightarrow> well_formed (fillna v df)"
  by (auto simp: well_formed_def fillna_def)

lemma no_nan_fillna: "v \<noteq> NaN \<Longrightarrow> no_nan (fillna v df)"
  by (auto simp: no_nan_def fillna_def fill_cell_def)

lemma load_raw_no_missing: "load_raw recs = Inr df \<Longrightarrow> no_nan df"
  by (auto simp: load_raw_def and_then_Inr no_nan_fillna)

lemma no_nan_rename: "rename f df = Inr df' \<Longrightarrow> no_nan df \<Longrightarrow> no_nan df'"
  by (auto simp: rename_def and_then_Inr no_nan_def)

lemma replace_value_not_nan:
  "x \<noteq> NaN \<Longrightarrow> NaN \<notin> set vs \<Longrightarrow> replace_value ts vs x \<noteq> NaN"
  by (induction ts vs x rule: replace_value.induct) auto

lemma no_nan_set_column:
  assumes "set_column df c vs = Inr df'" "no_nan df" "NaN \<notin> set vs"
  shows "no_nan df'"
proof -
  from assms(1) obtain j where
    df': "df' = df\<lparr>rows := map (\<lambda>((i, r), v). (i, r[j := v])) (zip (rows df) vs)\<rparr>"
    by (auto simp: set_column_def split: option.splits if_splits)
  show ?thesis
    unfolding no_nan_def df'
  proof (clarsimp)
    fix i r v assume z: "((i, r), v) \<in> set (zip (rows df) vs)" and n: "NaN \<in> set (r[j := v])"
    from z have "(i, r) \<in> set (rows df)" "v \<in> set vs" by (auto dest: set_zip_leftD set_zip_rightD)
    with assms(2,3) have "NaN \<notin> set r" "v \<noteq> NaN" by (auto simp: no_nan_def)
    moreover have "set (r[j := v]) \<subseteq> insert v (set r)" by (rule set_update_subset_insert)
    ultimately show False using n by auto
  qed
qed


lemma well_formed_rename:
  assumes "rename f df = Inr df'" "well_formed df"
  shows "well_formed df'"
proof -
  from assms(1) obtain cs where cs: "collect (map f (columns df)) = Inr cs"
    and df': "df' = df\<lparr>columns := cs\<rparr>"
    by (auto simp: rename_def and_then_Inr)
  from cs have "length cs = length (columns df)" by (drule_tac length_collect) simp
  with assms(2) show ?thesis by (simp add: well_formed_def df')
qed

lemma get_column_no_nan:
  assumes "get_column df c = Inr vs" "no_nan df" "well_formed df"
  shows "NaN \<notin> set vs"
proof -
  from assms(1) obtain j where j: "position_of c (columns df) = Some j"
    and vs: "vs = map (\<lambda>(i, r). r ! j) (rows df)"
    by (auto simp: get_column_def split: option.splits)
  have "r ! j \<noteq> NaN" if "(i, r) \<in> set (rows df)" for i r
  proof -
    from j have "j < length (columns df)" by (rule position_of_less)
    moreover from that assms(3) have "length r = length (columns df)"
      by (auto simp: well_formed_def)
    ultimately have "r ! j \<in> set r" by simp
    with that assms(2) show ?thesis by (auto simp: no_nan_def)
  qed
  then show ?thesis unfolding vs by (auto simp: eq_commute[of NaN])
qed

lemma replace_no_nan:
  assumes "NaN \<notin> set xs" "NaN \<notin> set vs"
  shows "NaN \<notin> set (replace ts vs xs)"
proof
  assume "NaN \<in> set (replace ts vs xs)"
  then obtain x where "x \<in> set xs" "replace_value ts vs x = NaN"
    by (auto simp: replace_def)
  with assms replace_value_not_nan[of x vs ts] show False by auto
qed

text \<open>
  C4. For every input CSV, after the load step the dataframe holds no missing value:
  the check \<^verbatim>\<open>df.isnull().values.any()\<close> that follows the ingestion cell returns
  false. (When ingestion raises there is no dataframe to check.)
\<close>

theorem load_dataset_no_missing:
  assumes "load_dataset recs = Inr df"
  shows "isnull_any df = False"
proof -
  from assms obtain raw named labels where
    raw: "load_raw recs = Inr raw" and
    named: "rename name_of_position raw = Inr named" and
    labels: "get_column named (Named ''label'') = Inr labels" and
    df: "set_column named (Named ''label'')
           (replace (map Str label_names) (map Num label_codes) labels) = Inr df"
    by (auto simp: load_dataset_def and_then_Inr)
  from raw have "no_nan raw" by (rule load_raw_no_missing)
  moreover from raw have "well_formed raw"
    by (auto simp: load_raw_def and_then_Inr well_formed_fillna well_formed_read_csv)
  ultimately have n: "no_nan named" and w: "well_formed named"
    using named by (auto intro: no_nan_rename well_formed_rename)
  from labels n w have "NaN \<notin> set labels" by (rule get_column_no_nan)
  then have "NaN \<notin> set (replace (map Str label_names) (map Num label_codes) labels)"
    by (rule replace_no_nan) auto
  with df n have "no_nan df" by (rule no_nan_set_column)
  then show ?thesis by (simp add: isnull_any_iff)
qed

lemma load_dataset_sample: "load_dataset sample_records = Inr sample_frame"
  by code_simp

theorem load_dataset_no_missing_witness:
  "load_dataset sample_records = Inr sample_frame \<and> isnull_any sample_frame = False"
  using load_dataset_no_missing [OF load_dataset_sample] load_dataset_sample by simp

section \<open>The encoded label column\<close>

lemma encode_label_in_codes:
  "encode_label (fill_cell (Str []) c) \<in> set (map Num label_codes) \<longleftrightarrow> encodable c"
proof (cases c)
  case NaN
  then show ?thesis
    by (auto simp: fill_cell_def encodable_def encode_label_def label_names_def label_codes_def)
next
  case (Str s)
  then show ?thesis
    by (auto simp: fill_cell_def encodable_def encode_label_def label_names_def label_codes_def)
next
  case (Num n)
  then show ?thesis
    by (auto simp: fill_cell_def encodable_def encode_label_def label_names_def label_codes_def)
qed

lemma rename_positions:
  assumes "collect (map name_of_position (map Pos [0..<k])) = Inr cs" "0 < k"
  shows "position_of (Named ''label'') cs = Some 0"
proof -
  from assms(1) have eq: "map name_of_position (map Pos [0..<k]) = map Inr cs"
    by (rule collect_Inr_all)
  then have "length cs = k" by (metis length_map length_upt diff_zero)
  with assms(2) obtain c cs' where cs: "cs = c # cs'" by (cases cs) auto
  from eq assms(2) have "name_of_position (Pos 0) = Inr c"
    by (simp add: cs upt_conv_Cons)
  then have "c = Named ''label''" by (simp add: column_names_def)
  then show ?thesis by (simp add: cs)
qed

lemma labels_of_load_dataset:
  assumes "load_dataset recs = Inr df"
  shows "labels_of df = map (\<lambda>r. encode_label (fill_cell (Str []) (hd r))) (skip_blank_lines recs)"
proof -
  define ls where "ls = skip_blank_lines recs"
  from assms obtain raw named labels where
    raw: "load_raw recs = Inr raw" and
    named: "rename name_of_position raw = Inr named" and
    labels: "get_column named (Named ''label'') = Inr labels" and
    df: "set_column named (Named ''label'')
           (replace (map Str label_names) (map Num label_codes) labels) = Inr df"
    by (auto simp: load_dataset_def and_then_Inr)
  from raw obtain df0 where df0: "read_csv recs = Inr df0" and raw_eq: "raw = fillna (Str []) df0"
    by (auto simp: load_raw_def and_then_Inr)
  from read_csv_Inr[OF df0] obtain k where k: "0 < k" and
    c0: "columns df0 = map Pos [0..<k]" and
    r0: "rows df0 = enumerate 0 (map (pad_record k) ls)" and
    l0: "\<forall>r \<in> set ls. length r \<le> k"
    unfolding ls_def by blast
  from named obtain cs where cs: "collect (map name_of_position (columns raw)) = Inr cs"
    and named_eq: "named = raw\<lparr>columns := cs\<rparr>"
    by (auto simp: rename_def and_then_Inr)
  from cs have "collect (map name_of_position (map Pos [0..<k])) = Inr cs"
    by (simp add: raw_eq fillna_def c0)
  then have pos: "position_of (Named ''label'') (columns named) = Some 0"
    using k by (simp add: named_eq rename_positions)
  have nonempty: "r \<noteq> []" if "r \<in> set ls" for r
    using that by (simp add: ls_def skip_blank_lines_def)
  have rows_named: "rows named = map (\<lambda>(i, r). (i, map (fill_cell (Str [])) r)) (enumerate 0 (map (pad_record k) ls))"
    by (simp add: named_eq raw_eq fillna_def r0 fillna_def)
  have labels_eq: "labels = map (\<lambda>r. fill_cell (Str []) (hd r)) ls"
  proof -
    from labels pos have "labels = map (\<lambda>(i, r). r ! 0) (rows named)"
      by (simp add: get_column_def)
    also have "\<dots> = map (\<lambda>(i, r). r ! 0) (enumerate 0 (map (\<lambda>r. map (fill_cell (Str [])) (pad_record k r)) ls))"
      unfolding rows_named map_enumerate_snd by (simp add: o_def)
    also have "\<dots> = map (\<lambda>r. r ! 0) (map (\<lambda>r. map (fill_cell (Str [])) (pad_record k r)) ls)"
      by (rule map_snd_enumerate)
    also have "\<dots> = map (\<lambda>r. map (fill_cell (Str [])) (pad_record k r) ! 0) ls"
      by (simp add: o_def)
    also have "\<dots> = map (\<lambda>r. fill_cell (Str []) (hd r)) ls"
    proof (rule map_cong[OF refl])
      fix r assume "r \<in> set ls"
      then have "r \<noteq> []" by (rule nonempty)
      then show "map (fill_cell (Str [])) (pad_record k r) ! 0 = fill_cell (Str []) (hd r)"
        by (cases r) (simp_all add: pad_record_def)
    qed
    finally show ?thesis .
  qed
  define vs where "vs = replace (map Str label_names) (map Num label_codes) labels"
  have len: "length vs = length (rows named)"
    by (simp add: vs_def replace_def labels_eq rows_named)
  from df pos len have df_eq:
    "df = named\<lparr>rows := map (\<lambda>((i, r), v). (i, r[0 := v])) (zip (rows named) vs)\<rparr>"
    by (simp add: set_column_def vs_def[symmetric])
  have "labels_of df = map (\<lambda>(i, r). r ! 0) (rows df)"
    using pos by (simp add: labels_of_def get_column_def df_eq)
  also have "\<dots> = map (\<lambda>((i, r), v). r[0 := v] ! 0) (zip (rows named) vs)"
    by (simp add: df_eq split_def o_def)
  also have "\<dots> = map snd (zip (rows named) vs)"
  proof (rule map_cong[OF refl])
    fix x assume "x \<in> set (zip (rows named) vs)"
    then obtain i r v where x: "x = ((i, r), v)" and "(i, r) \<in> set (rows named)"
      by (metis set_zip_leftD surj_pair)
    then obtain r' where "r = map (fill_cell (Str [])) (pad_record k r')" "r' \<in> set ls"
      by (auto simp: rows_named in_set_enumerate_eq)
    with l0 k have "0 < length r" by (simp add: length_pad_record)
    then show "(case x of (x, xa) \<Rightarrow> (case x of (i, r) \<Rightarrow> \<lambda>v. r[0 := v] ! 0) xa) = snd x"
      by (simp add: x)
  qed
  also have "\<dots> = vs" using len by (simp add: map_snd_zip)
  finally show ?thesis
    by (simp add: vs_def replace_def labels_eq encode_label_def ls_def)
qed

lemma encode_label_after_encoding: "encode_label (fill_cell (Str []) v) = after_encoding v"
proof (cases v)
  case NaN
  then show ?thesis
    by (simp add: fill_cell_def encode_label_def label_names_def label_codes_def)
next
  case (Str s)
  then show ?thesis
    by (simp add: fill_cell_def encode_label_def label_names_def label_codes_def)
next
  case (Num n)
  then show ?thesis
    by (simp add: fill_cell_def encode_label_def label_names_def label_codes_def)
qed

text \<open>
  C5 (as the code has it). After a successful ingestion, the label of every record is
  0, 1 or 2 where the record's label field was neutral, positive or negative, the
  empty string where the field was missing, and the field's own value, unchanged,
  otherwise. Hence the label column holds only the codes 0, 1, 2 exactly when every
  record's label field is one of the three strings (or already one of the integers
  0, 1, 2).
\<close>

theorem load_dataset_labels_in_classes:
  assumes "load_dataset recs = Inr df"
  shows "labels_of df = map (\<lambda>r. after_encoding (hd r)) (skip_blank_lines recs)
    \<and> labels_in_classes df = list_all (\<lambda>r. encodable (hd r)) (skip_blank_lines recs)"
proof -
  have "list_all (\<lambda>v. v \<in> set (map Num label_codes)) (map (\<lambda>r. encode_label (fill_cell (Str []) (hd r))) ls)
      = list_all (\<lambda>r. encodable (hd r)) ls" for ls
    by (induction ls) (simp_all add: encode_label_in_codes del: set_map)
  then have "labels_in_classes df = list_all (\<lambda>r. encodable (hd r)) (skip_blank_lines recs)"
    unfolding labels_in_classes_def labels_of_load_dataset[OF assms] .
  moreover have "labels_of df = map (\<lambda>r. after_encoding (hd r)) (skip_blank_lines recs)"
    unfolding labels_of_load_dataset[OF assms] by (simp only: encode_label_after_encoding)
  ultimately show ?thesis by simp
qed

lemma load_dataset_mixed: "load_dataset mixed_records = Inr mixed_frame"
  by code_simp

theorem load_dataset_labels_in_classes_witness:
  "load_dataset mixed_records = Inr mixed_frame
   \<and> labels_of mixed_frame = [Num 0, Str ''mixed'']
   \<and> labels_in_classes mixed_frame = False"
proof -
  have "map (\<lambda>r. after_encoding (hd r)) (skip_blank_lines mixed_records) = [Num 0, Str ''mixed'']"
    by code_simp
  moreover have "list_all (\<lambda>r. encodable (hd r)) (skip_blank_lines mixed_records) = False"
    by code_simp
  ultimately show ?thesis
    using load_dataset_labels_in_classes [OF load_dataset_mixed] load_dataset_mixed by simp
qed

text \<open>
  C5 as stated fails: a record labelled \<open>mixed\<close> is ingested without an error and its
  label is still the string \<open>mixed\<close> after the encoding step.
\<close>

theorem load_dataset_labels_counterexample:
  "load_dataset mixed_records = Inr mixed_frame \<and> \<not> labels_in_classes mixed_frame"
  by code_simp

section \<open>Baseline evaluation: encoding and decoding agree\<close>

lemma pipeline_names_capitalized: "pipeline_names = map capitalize label_names"
  by (simp add: pipeline_names_def label_names_def upper_case_def)

lemma decode_capitalized:
  "t \<in> set label_names \<Longrightarrow> decode_prediction (Str (capitalize t)) = encode_label (Str t)"
  by (auto simp: label_names_def decode_prediction_def encode_label_def pipeline_names_def
      label_codes_def upper_case_def)

lemma correct_flag:
  assumes "t \<in> set label_names" "p \<in> set pipeline_names"
  shows "py_eq (encode_label (Str t)) (decode_prediction (Str p)) \<longleftrightarrow> p = capitalize t"
  using assms
  by (auto simp: label_names_def decode_prediction_def encode_label_def pipeline_names_def
      label_codes_def upper_case_def)

lemma correct_column_same_length:
  assumes "length ls = length ps"
  shows "correct_column ls ps = map (\<lambda>(l, p). py_eq l p) (zip ls ps)"
proof -
  from assms have "concat_columns ls ps = zip ls ps"
    by (induction ls ps rule: list_induct2) simp_all
  then show ?thesis by (simp add: correct_column_def)
qed

lemma get_column_selected:
  assumes "get_column df (Named ''sentence'') = Inr ss"
    and "get_column df (Named ''label'') = Inr ls"
  shows "\<exists>truth. select_columns df [Named ''sentence'', Named ''label''] = Inr truth
           \<and> get_column (reset_index truth) (Named ''label'') = Inr ls"
proof -
  from get_column_map[OF assms(1)] obtain js where
    js: "position_of (Named ''sentence'') (columns df) = Some js" by blast
  from get_column_map[OF assms(2)] obtain jl where
    jl: "position_of (Named ''label'') (columns df) = Some jl"
    and ls: "ls = map (\<lambda>(i, r). r ! jl) (rows df)" by blast
  define truth where "truth =
    \<lparr>columns = [Named ''sentence'', Named ''label''],
     rows = map (\<lambda>(i, r). (i, map (\<lambda>j. r ! j) [js, jl])) (rows df)\<rparr>"
  have sel: "select_columns df [Named ''sentence'', Named ''label''] = Inr truth"
    by (simp add: select_columns_def column_position_def js jl and_then_def truth_def)
  have "map (\<lambda>(i, r). r ! Suc 0) (rows (reset_index truth))
      = map (\<lambda>r. r ! Suc 0) (map snd (rows truth))"
    unfolding reset_index_def by (simp add: map_snd_enumerate)
  also have "\<dots> = ls"
    by (simp add: truth_def ls o_def split_def)
  finally have "get_column (reset_index truth) (Named ''label'') = Inr ls"
    by (simp add: get_column_def reset_index_def truth_def)
  with sel show ?thesis by blast
qed

text \<open>
  C10. The lower-case encoding of the ground truth and the capitalised decoding of the
  pipeline's output give corresponding sentiment classes the same code: the pipeline's
  names are the capitalised dataset names, in the same order, and a name and its
  capitalised form have one code. Hence, for a test frame with distinct column names
  and a sentence column, whose labels are the encoded classes \<open>ts\<close>, and a non-empty list of pipeline answers, one
  per row, the \<^verbatim>\<open>Correct\<close> flag of a row is true exactly when the predicted class is
  the row's class.
\<close>

theorem baseline_correct_flag:
  assumes "set ts \<subseteq> set label_names" and "set (map fst results) \<subseteq> set pipeline_names"
    and "length ts = length results" and "results \<noteq> []"
    and "get_column df_test (Named ''label'') = Inr (map (\<lambda>t. encode_label (Str t)) ts)"
    and "get_column df_test (Named ''sentence'') = Inr sentences"
    and "distinct (columns df_test)"
  shows "pipeline_names = map capitalize label_names
    \<and> map (\<lambda>t. encode_label (Str t)) label_names
        = map (\<lambda>t. decode_prediction (Str (capitalize t))) label_names
    \<and> baseline_correct df_test results
        = Inr (map (\<lambda>(t, p). p = capitalize t) (zip ts (map fst results)))"
proof (intro conjI)
  show "pipeline_names = map capitalize label_names"
    by (rule pipeline_names_capitalized)
  show "map (\<lambda>t. encode_label (Str t)) label_names
      = map (\<lambda>t. decode_prediction (Str (capitalize t))) label_names"
    by (rule map_cong[OF refl]) (simp add: decode_capitalized)
  have "distinct cs \<Longrightarrow> count_list cs c \<le> 1" for cs :: "col list" and c
    by (induction cs) (auto simp: count_list_0_iff)
  from this[OF assms(7)] have "count_list (columns df_test) (Named ''label'') \<le> 1" .
  then have one: "\<not> 1 < count_list (columns df_test) (Named ''label'')" by simp
  define ps where "ps = map fst results"
  have lps: "length ts = length ps" using assms(3) by (simp add: ps_def)
  have pred: "replace (map Str pipeline_names) (map Num label_codes)
                (map (\<lambda>(label, score). Str label) results)
            = map (\<lambda>s. decode_prediction (Str s)) ps"
    by (simp add: replace_def decode_prediction_def ps_def split_def o_def)
  from get_column_selected[OF assms(6,5)] obtain truth where
    sel: "select_columns df_test [Named ''sentence'', Named ''label''] = Inr truth"
    and lab: "get_column (reset_index truth) (Named ''label'')
            = Inr (map (\<lambda>t. encode_label (Str t)) ts)"
    by blast
  have "correct_column (map (\<lambda>t. encode_label (Str t)) ts)
          (map (\<lambda>s. decode_prediction (Str s)) ps)
      = map (\<lambda>(l, p). py_eq l p)
          (zip (map (\<lambda>t. encode_label (Str t)) ts) (map (\<lambda>s. decode_prediction (Str s)) ps))"
    using lps by (simp add: correct_column_same_length)
  also have "\<dots> = map (\<lambda>(t, p). py_eq (encode_label (Str t)) (decode_prediction (Str p)))
                     (zip ts ps)"
    by (simp add: zip_map_map split_def)
  also have "\<dots> = map (\<lambda>(t, p). p = capitalize t) (zip ts ps)"
  proof (rule map_cong[OF refl])
    fix x assume "x \<in> set (zip ts ps)"
    then obtain t p where x: "x = (t, p)" and "t \<in> set ts" "p \<in> set ps"
      by (metis set_zip_leftD set_zip_rightD surj_pair)
    with assms(1,2) have "t \<in> set label_names" "p \<in> set pipeline_names"
      by (auto simp: ps_def)
    then show "(case x of (t, p) \<Rightarrow> py_eq (encode_label (Str t)) (decode_prediction (Str p)))
             = (case x of (t, p) \<Rightarrow> p = capitalize t)"
      by (simp add: x correct_flag)
  qed
  finally have "correct_column (map (\<lambda>t. encode_label (Str t)) ts)
          (map (\<lambda>s. decode_prediction (Str s)) ps)
      = map (\<lambda>(t, p). p = capitalize t) (zip ts ps)" .
  then show "baseline_correct df_test results
      = Inr (map (\<lambda>(t, p). p = capitalize t) (zip ts (map fst results)))"
    unfolding baseline_correct_def Let_def pred
    using assms(4) one by (simp add: sel lab and_then_def ps_def)
qed

theorem baseline_correct_flag_witness:
  "baseline_correct sample_test_frame sample_answers = Inr [False, True]"
proof -
  have a: "set [''positive'', ''neutral''] \<subseteq> set label_names"
    by (simp add: label_names_def)
  have b: "set (map fst sample_answers) \<subseteq> set pipeline_names"
    by (simp add: pipeline_names_def sample_answers_def)
  have c: "length [''positive'', ''neutral''] = length sample_answers"
    by (simp add: sample_answers_def)
  have d: "sample_answers \<noteq> []" by (simp add: sample_answers_def)
  have e: "get_column sample_test_frame (Named ''label'')
         = Inr (map (\<lambda>t. encode_label (Str t)) [''positive'', ''neutral''])"
    by (simp add: get_column_def sample_test_frame_def encode_label_def label_names_def
        label_codes_def)
  have f: "get_column sample_test_frame (Named ''sentence'')
         = Inr [Str ''Ruukki has signed a contract'', Str ''The Group has cumulative sales'']"
    by (simp add: get_column_def sample_test_frame_def)
  have g: "distinct (columns sample_test_frame)" by (simp add: sample_test_frame_def)
  from baseline_correct_flag [OF a b c d e f g] show ?thesis
    by (simp add: upper_case_def sample_answers_def)
qed

section \<open>Tokenized records have the maximum length\<close>

lemma length_truncate_ids: "2 \<le> n \<Longrightarrow> length (truncate_ids n ids) + 2 \<le> n"
  by (simp add: truncate_ids_def Let_def)

lemma tokenizer_call_lengths:
  assumes "2 \<le> n"
  shows "length (input_ids (tokenizer_call tok n text)) = n"
    and "length (token_type_ids (tokenizer_call tok n text)) = n"
    and "length (attention_mask (tokenizer_call tok n text)) = n"
  using length_truncate_ids[OF assms, of "wordpiece tok text"]
  by (simp_all add: tokenizer_call_def Let_def)

lemma collect_tokenize_cells:
  assumes "collect (map (tokenize_cell tok) cs) = Inr encs"
  shows "length encs = length cs"
    and "list_all (\<lambda>e. length (input_ids e) = max_length
            \<and> length (attention_mask e) = max_length
            \<and> length (token_type_ids e) = max_length) encs"
  using assms
proof (induction cs arbitrary: encs)
  case Nil
  {
    case 1 then show ?case by simp
  next
    case 2 then show ?case by simp
  }
next
  case (Cons c cs)
  {
    case 1
    then show ?case using Cons.IH(1) by (auto split: sum.splits)
  next
    case 2
    then obtain e es where encs: "encs = e # es" and e: "tokenize_cell tok c = Inr e"
      and es: "collect (map (tokenize_cell tok) cs) = Inr es"
      by (auto split: sum.splits)
    from e obtain s where "e = tokenizer_call tok max_length s" by (cases c) auto
    then have "length (input_ids e) = max_length \<and> length (attention_mask e) = max_length
        \<and> length (token_type_ids e) = max_length"
      by (simp add: tokenizer_call_lengths max_length_def)
    with Cons.IH(2)[OF es] show ?case by (simp add: encs)
  }
qed

text \<open>
  C7. Tokenization pads or truncates every sentence to the fixed maximum length: in
  every record of a tokenized dataset (the training, the validation or the test
  frame), \<^verbatim>\<open>input_ids\<close>, \<^verbatim>\<open>attention_mask\<close> and \<^verbatim>\<open>token_type_ids\<close> have exactly 315
  entries, whatever the length of the sentence, and there is one record per row.
\<close>

theorem tokenize_dataset_lengths:
  assumes "tokenize_dataset tok df = Inr encs"
  shows "max_length = 315 \<and> length encs = length (rows df)
    \<and> list_all (\<lambda>e. length (input_ids e) = 315 \<and> length (attention_mask e) = 315
                   \<and> length (token_type_ids e) = 315) encs"
proof -
  from assms obtain dataset sentences where f: "from_pandas df = Inr dataset"
    and g0: "get_column dataset (Named ''sentence'') = Inr sentences"
    and c: "collect (map (tokenize_cell tok) sentences) = Inr encs"
    by (auto simp: tokenize_dataset_def and_then_Inr)
  from f have "dataset = df" by (simp add: from_pandas_def split: if_splits)
  with g0 have g: "get_column df (Named ''sentence'') = Inr sentences" by simp
  from g have "length sentences = length (rows df)"
    by (auto simp: get_column_def split: option.splits)
  with collect_tokenize_cells[OF c] show ?thesis by (simp add: max_length_def)
qed

lemma tokenize_long_frame:
  "tokenize_dataset character_tokenizer long_frame
   = Inr [tokenizer_call character_tokenizer 315 ''Profits rose'',
          tokenizer_call character_tokenizer 315 (replicate 400 (CHR ''a''))]"
proof -
  have "from_pandas long_frame = Inr long_frame" by code_simp
  then show ?thesis
    by (simp add: tokenize_dataset_def and_then_def)
      (simp add: long_frame_def get_column_def max_length_def)
qed

theorem tokenize_dataset_lengths_witness:
  "tokenize_dataset character_tokenizer long_frame
   = Inr [tokenizer_call character_tokenizer 315 ''Profits rose'',
          tokenizer_call character_tokenizer 315 (replicate 400 (CHR ''a''))]
   \<and> length (input_ids (tokenizer_call character_tokenizer 315 ''Profits rose'')) = 315
   \<and> length (input_ids (tokenizer_call character_tokenizer 315 (replicate 400 (CHR ''a'')))) = 315
   \<and> length (attention_mask (tokenizer_call character_tokenizer 315 (replicate 400 (CHR ''a'')))) = 315
   \<and> length (token_type_ids (tokenizer_call character_tokenizer 315 (replicate 400 (CHR ''a'')))) = 315"
proof -
  note t = tokenize_dataset_lengths [OF tokenize_long_frame]
  then have "list_all (\<lambda>e. length (input_ids e) = 315 \<and> length (attention_mask e) = 315
                   \<and> length (token_type_ids e) = 315)
      [tokenizer_call character_tokenizer 315 ''Profits rose'',
       tokenizer_call character_tokenizer 315 (replicate 400 (CHR ''a''))]"
    by blast
  then have "(length (input_ids (tokenizer_call character_tokenizer 315 ''Profits rose'')) = 315
      \<and> length (attention_mask (tokenizer_call character_tokenizer 315 ''Profits rose'')) = 315
      \<and> length (token_type_ids (tokenizer_call character_tokenizer 315 ''Profits rose'')) = 315)
    \<and> (length (input_ids (tokenizer_call character_tokenizer 315 (replicate 400 (CHR ''a'')))) = 315
      \<and> length (attention_mask (tokenizer_call character_tokenizer 315 (replicate 400 (CHR ''a'')))) = 315
      \<and> length (token_type_ids (tokenizer_call character_tokenizer 315 (replicate 400 (CHR ''a'')))) = 315)"
    by (simp only: list.pred_inject simp_thms)
  then show ?thesis
    using tokenize_long_frame by blast
qed

section \<open>The metric is accuracy by argmax-and-compare\<close>

lemma argmax_from_first_max:
  assumes "bi < length ys" and "i = length ys" and "ys ! bi = best"
    and "\<forall>j < length ys. ys ! j \<le> best" and "\<forall>j < bi. ys ! j < best"
  shows "argmax_from best bi i xs < length (ys @ xs)
    \<and> (\<forall>j < length (ys @ xs). (ys @ xs) ! j \<le> (ys @ xs) ! argmax_from best bi i xs)
    \<and> (\<forall>j < argmax_from best bi i xs. (ys @ xs) ! j < (ys @ xs) ! argmax_from best bi i xs)"
  using assms
proof (induction xs arbitrary: ys best bi i)
  case Nil
  then show ?case by simp
next
  case (Cons x xs)
  show ?case
  proof (cases "best < x")
    case True
    have "argmax_from x i (Suc i) xs < length ((ys @ [x]) @ xs)
      \<and> (\<forall>j < length ((ys @ [x]) @ xs).
            ((ys @ [x]) @ xs) ! j \<le> ((ys @ [x]) @ xs) ! argmax_from x i (Suc i) xs)
      \<and> (\<forall>j < argmax_from x i (Suc i) xs.
            ((ys @ [x]) @ xs) ! j < ((ys @ [x]) @ xs) ! argmax_from x i (Suc i) xs)"
    proof (rule Cons.IH)
      show "i < length (ys @ [x])" using Cons.prems(2) by simp
      show "Suc i = length (ys @ [x])" using Cons.prems(2) by simp
      show "(ys @ [x]) ! i = x" using Cons.prems(2) by simp
      show "\<forall>j<length (ys @ [x]). (ys @ [x]) ! j \<le> x"
        using Cons.prems(4) True by (auto simp: nth_append less_Suc_eq intro: less_imp_le order_trans)
      show "\<forall>j<i. (ys @ [x]) ! j < x"
        using Cons.prems(2,4) True by (auto simp: nth_append intro: le_less_trans)
    qed
    with True show ?thesis by simp
  next
    case False
    have "argmax_from best bi (Suc i) xs < length ((ys @ [x]) @ xs)
      \<and> (\<forall>j < length ((ys @ [x]) @ xs).
            ((ys @ [x]) @ xs) ! j \<le> ((ys @ [x]) @ xs) ! argmax_from best bi (Suc i) xs)
      \<and> (\<forall>j < argmax_from best bi (Suc i) xs.
            ((ys @ [x]) @ xs) ! j < ((ys @ [x]) @ xs) ! argmax_from best bi (Suc i) xs)"
    proof (rule Cons.IH)
      show "bi < length (ys @ [x])" using Cons.prems(1) by simp
      show "Suc i = length (ys @ [x])" using Cons.prems(2) by simp
      show "(ys @ [x]) ! bi = best" using Cons.prems(1,3) by (simp add: nth_append)
      show "\<forall>j<length (ys @ [x]). (ys @ [x]) ! j \<le> best"
        using Cons.prems(4) False by (auto simp: nth_append less_Suc_eq)
      show "\<forall>j<bi. (ys @ [x]) ! j < best"
        using Cons.prems(1,5) by (auto simp: nth_append)
    qed
    with False show ?thesis by simp
  qed
qed

lemma argmax_row_is_row_argmax:
  assumes "row \<noteq> []"
  shows "argmax_row row = Inr (row_argmax row)"
proof -
  from assms obtain x xs where row: "row = x # xs" by (cases row) auto
  define r where "r = argmax_from x 0 1 xs"
  have "argmax_from x 0 1 xs < length ([x] @ xs)
    \<and> (\<forall>j < length ([x] @ xs). ([x] @ xs) ! j \<le> ([x] @ xs) ! argmax_from x 0 1 xs)
    \<and> (\<forall>j < argmax_from x 0 1 xs. ([x] @ xs) ! j < ([x] @ xs) ! argmax_from x 0 1 xs)"
    by (rule argmax_from_first_max) simp_all
  then have r: "r < length row" "\<forall>j < length row. row ! j \<le> row ! r"
    "\<forall>j < r. row ! j < row ! r"
    by (simp_all add: r_def row)
  have "row_argmax row = r"
    unfolding row_argmax_def
  proof (rule Least_equality)
    show "r < length row \<and> (\<forall>j<length row. row ! j \<le> row ! r)" using r by simp
  next
    fix y assume y: "y < length row \<and> (\<forall>j<length row. row ! j \<le> row ! y)"
    show "r \<le> y"
    proof (rule ccontr)
      assume "\<not> r \<le> y"
      then have "y < r" by simp
      with r(3) have "row ! y < row ! r" by simp
      moreover from y r(1) have "row ! r \<le> row ! y" by simp
      ultimately show False by simp
    qed
  qed
  then show ?thesis by (simp add: argmax_row_def row r_def)
qed

lemma collect_map_Inr:
  assumes "\<forall>x \<in> set xs. f x = Inr (g x)"
  shows "collect (map f xs) = Inr (map g xs)"
  using assms by (induction xs) simp_all

lemma np_argmax_rows:
  assumes "\<forall>row \<in> set predictions. row \<noteq> []"
  shows "np_argmax predictions = Inr (map row_argmax predictions)"
  unfolding np_argmax_def
  using assms by (intro collect_map_Inr) (simp add: argmax_row_is_row_argmax)

lemma count_matches:
  assumes "length xs = length ys"
  shows "length (filter (\<lambda>(a, b). a = b) (zip xs ys)) = card {i. i < length xs \<and> xs ! i = ys ! i}"
proof -
  have "length (filter (\<lambda>(a, b). a = b) (zip xs ys))
      = card {i. i < length (zip xs ys) \<and> (\<lambda>(a, b). a = b) (zip xs ys ! i)}"
    by (rule length_filter_conv_card)
  also have "{i. i < length (zip xs ys) \<and> (\<lambda>(a, b). a = b) (zip xs ys ! i)}
           = {i. i < length xs \<and> xs ! i = ys ! i}"
    using assms by auto
  finally show ?thesis .
qed

text \<open>
  C6. \<^verbatim>\<open>compute_metrics\<close> computes accuracy by argmax-and-compare: for a non-empty matrix
  of per-class scores (every row with at least one class) and one integer label per
  row, it returns, under the key \<^verbatim>\<open>accuracy\<close>, the fraction of rows whose argmax over
  the class axis equals the row's label.
\<close>

theorem compute_metrics_accuracy:
  assumes "predictions \<noteq> []" and "\<forall>row \<in> set predictions. row \<noteq> []"
    and "length labels = length predictions"
  shows "compute_metrics (predictions, labels)
       = Inr [(''accuracy'', Value (argmax_accuracy predictions labels))]"
proof -
  let ?am = "map int (map row_argmax predictions)"
  have "accuracy_score ?am labels
      = Inr (Value (of_nat (length (filter (\<lambda>(a, b). a = b) (zip ?am labels)))
                    / of_nat (length predictions)))"
    using assms(1,3) by (simp add: accuracy_score_def)
  also have "length (filter (\<lambda>(a, b). a = b) (zip ?am labels))
           = card {i. i < length ?am \<and> ?am ! i = labels ! i}"
    using assms(3) by (intro count_matches) simp
  also have "{i. i < length ?am \<and> ?am ! i = labels ! i}
           = {i. i < length predictions \<and> int (row_argmax (predictions ! i)) = labels ! i}"
    by auto
  finally have "accuracy_score ?am labels = Inr (Value (argmax_accuracy predictions labels))"
    by (simp add: argmax_accuracy_def)
  then show ?thesis
    by (simp add: compute_metrics_def np_argmax_rows[OF assms(2)] and_then_def)
qed

lemma compute_metrics_sample:
  "compute_metrics (sample_scores, sample_labels) = Inr [(''accuracy'', Value (1/2))]"
  by (simp add: compute_metrics_def np_argmax_def argmax_row_def accuracy_score_def
      sample_scores_def sample_labels_def and_then_def)

theorem compute_metrics_accuracy_witness:
  "compute_metrics (sample_scores, sample_labels) = Inr [(''accuracy'', Value (1/2))]
   \<and> argmax_accuracy sample_scores sample_labels = 1/2"
proof -
  have a: "sample_scores \<noteq> []" by (simp add: sample_scores_def)
  have b: "\<forall>row \<in> set sample_scores. row \<noteq> []" by (simp add: sample_scores_def)
  have c: "length sample_labels = length sample_scores"
    by (simp add: sample_scores_def sample_labels_def)
  from compute_metrics_accuracy [OF a b c] compute_metrics_sample show ?thesis by simp
qed

section \<open>Drawing from the generator\<close>

lemma mset_rotate_eq: "mset (rotate n xs) = mset xs"
proof -
  have "mset (rotate n xs) = mset (drop (n mod length xs) xs) + mset (take (n mod length xs) xs)"
    by (simp add: rotate_drop_take)
  also have "\<dots> = mset (take (n mod length xs) xs @ drop (n mod length xs) xs)"
    by (simp only: mset_append add.commute)
  finally show ?thesis by simp
qed

lemma permutes_rotating: "permutes rotating"
  by (simp add: permutes_def rotating_def mset_rotate_eq)

lemma sum_list_update_int:
  fixes xs :: "int list"
  shows "i < length xs \<Longrightarrow> sum_list (xs[i := v]) = sum_list xs + v - xs ! i"
  by (induction xs arbitrary: i) (auto split: nat.splits)

lemma permutes_props:
  assumes "permutes R" and "permutation R g n = (p, g')"
  shows "mset p = mset [0..<n]" and "distinct p" and "set p = {0..<n}" and "length p = n"
proof -
  from assms show m: "mset p = mset [0..<n]"
    by (metis fst_conv permutes_def)
  from m have "distinct p = distinct [0..<n]" by (rule mset_eq_imp_distinct_iff)
  then show "distinct p" by simp
  from m have "set p = set [0..<n]" by (rule mset_eq_setD)
  then show "set p = {0..<n}" by simp
  from m have "length p = length [0..<n]" by (rule mset_eq_length)
  then show "length p = n" by simp
qed

lemma mset_map_nth_permutation:
  assumes "mset p = mset [0..<length xs]"
  shows "mset (map (\<lambda>j. xs ! j) p) = mset xs"
proof -
  have "mset (map (\<lambda>j. xs ! j) p) = image_mset (\<lambda>j. xs ! j) (mset p)" by simp
  also have "\<dots> = image_mset (\<lambda>j. xs ! j) (mset [0..<length xs])" by (simp only: assms)
  also have "\<dots> = mset (map (\<lambda>j. xs ! j) [0..<length xs])" by simp
  also have "\<dots> = mset xs" by (simp add: map_nth)
  finally show ?thesis .
qed

lemma mset_shuffled:
  assumes "permutes R" and "shuffled R g xs = (ys, g')"
  shows "mset ys = mset xs"
proof -
  obtain p g1 where p: "permutation R g (length xs) = (p, g1)" by (cases "permutation R g (length xs)")
  with assms(2) have ys: "ys = map (\<lambda>j. xs ! j) p" by (simp add: shuffled_def)
  from permutes_props(1)[OF assms(1) p] show ?thesis
    unfolding ys by (rule mset_map_nth_permutation)
qed

lemma mset_take_clip:
  assumes "permutes R" and "permutation R g (length xs) = (p, g')"
  shows "mset (take_clip xs p) = mset xs"
proof -
  have "set p = {0..<length xs}" by (rule permutes_props(3)[OF assms])
  then have "take_clip xs p = map (\<lambda>j. xs ! j) p"
    unfolding take_clip_def by (intro map_cong[OF refl]) auto
  with permutes_props(1)[OF assms] show ?thesis
    by (simp only: mset_map_nth_permutation)
qed

lemma choice_props:
  assumes "permutes R" and "choice R g a k = (c, g')" and "distinct a" and "k \<le> length a"
  shows "distinct c" and "set c \<subseteq> set a" and "length c = k"
proof -
  obtain p g1 where p: "permutation R g (length a) = (p, g1)" by (cases "permutation R g (length a)")
  with assms(2) have c: "c = map (\<lambda>j. a ! j) (take k p)" by (simp add: choice_def)
  note pp = permutes_props[OF assms(1) p]
  have sub: "set (take k p) \<subseteq> {0..<length a}" using pp(3) set_take_subset[of k p] by auto
  have "inj_on (\<lambda>j. a ! j) (set (take k p))"
  proof (rule inj_onI)
    fix x y assume "x \<in> set (take k p)" "y \<in> set (take k p)" "a ! x = a ! y"
    with sub have "x < length a" "y < length a" by auto
    with assms(3) \<open>a ! x = a ! y\<close> show "x = y" by (simp add: nth_eq_iff_index_eq)
  qed
  moreover have "distinct (take k p)" using pp(2) by simp
  ultimately show "distinct c" unfolding c by (simp add: distinct_map)
  show "set c \<subseteq> set a" unfolding c using sub by auto
  show "length c = k" unfolding c using pp(4) assms(4) by simp
qed

lemma increment_props:
  assumes "distinct inds" and "\<forall>i \<in> set inds. i < length fl"
  shows "length (increment inds fl) = length fl"
    and "\<forall>i < length fl. increment inds fl ! i = fl ! i + (if i \<in> set inds then 1 else 0)"
    and "sum_list (increment inds fl) = sum_list fl + int (length inds)"
  using assms
proof (induction inds arbitrary: fl)
  case Nil
  {
    case 1 show ?case by (simp add: increment_def)
  next
    case 2 show ?case by (simp add: increment_def)
  next
    case 3 show ?case by (simp add: increment_def)
  }
next
  case (Cons a inds)
  {
    case 1
    then have "length (increment inds (fl[a := fl ! a + 1])) = length (fl[a := fl ! a + 1])"
      by (intro Cons.IH(1)) auto
    then show ?case by (simp add: increment_def)
  next
    case 2
    then have "\<forall>i < length (fl[a := fl ! a + 1]).
        increment inds (fl[a := fl ! a + 1]) ! i
          = (fl[a := fl ! a + 1]) ! i + (if i \<in> set inds then 1 else 0)"
      by (intro Cons.IH(2)) auto
    moreover have "increment (a # inds) fl = increment inds (fl[a := fl ! a + 1])"
      by (simp add: increment_def)
    ultimately show ?case using 2 by (auto simp: nth_list_update)
  next
    case 3
    then have "sum_list (increment inds (fl[a := fl ! a + 1]))
        = sum_list (fl[a := fl ! a + 1]) + int (length inds)"
      by (intro Cons.IH(3)) auto
    moreover have "increment (a # inds) fl = increment inds (fl[a := fl ! a + 1])"
      by (simp add: increment_def)
    moreover have "sum_list (fl[a := fl ! a + 1]) = sum_list fl + 1"
      using 3 by (simp add: sum_list_update_int)
    ultimately show ?case by simp
  }
qed

section \<open>The approximate mode\<close>

lemma add_remainders_props:
  assumes "permutes R" and "length fl = length rem" and "distinct vs" and "0 \<le> need"
    and "add_remainders R rem vs fl need g = (fl', g')"
  shows "length fl' = length fl
    \<and> (\<forall>i < length fl. fl ! i \<le> fl' ! i \<and> fl' ! i \<le> fl ! i + 1
          \<and> (rem ! i \<notin> set vs \<longrightarrow> fl' ! i = fl ! i))
    \<and> sum_list fl' = sum_list fl + min need (int (card {i. i < length rem \<and> rem ! i \<in> set vs}))"
  using assms(2-)
proof (induction vs arbitrary: fl need g fl' g')
  case Nil
  then show ?case by simp
next
  case (Cons v vs)
  define inds where "inds = filter (\<lambda>i. rem ! i = v) [0..<length rem]"
  define add_now where "add_now = min (int (length inds)) need"
  obtain c g1 where ch: "choice R g inds (nat add_now) = (c, g1)"
    by (cases "choice R g inds (nat add_now)")
  define fl1 where "fl1 = increment c fl"
  define need1 where "need1 = need - add_now"
  have "add_remainders R rem (v # vs) fl need g
      = (if need1 = 0 then (fl1, g1) else add_remainders R rem vs fl1 need1 g1)"
    by (simp only: add_remainders.simps Let_def inds_def[symmetric] add_now_def[symmetric] ch
        prod.case fl1_def need1_def)
  with Cons.prems(4)
  have res: "(fl', g') = (if need1 = 0 then (fl1, g1) else add_remainders R rem vs fl1 need1 g1)"
    by simp
  have dinds: "distinct inds" by (simp add: inds_def)
  have sinds: "set inds = {i. i < length rem \<and> rem ! i = v}" by (auto simp: inds_def)
  have an: "0 \<le> add_now" "add_now \<le> need" "nat add_now \<le> length inds"
    using Cons.prems(3) by (auto simp: add_now_def)
  note cp = choice_props[OF assms(1) ch dinds an(3)]
  have c_lt: "\<forall>i \<in> set c. i < length fl"
    using cp(2) sinds Cons.prems(1) by auto
  have len1: "length fl1 = length fl"
    unfolding fl1_def by (rule increment_props(1)[OF cp(1) c_lt])
  have nth1: "\<forall>i < length fl. fl1 ! i = fl ! i + (if i \<in> set c then 1 else 0)"
    unfolding fl1_def by (rule increment_props(2)[OF cp(1) c_lt])
  have sum1: "sum_list fl1 = sum_list fl + add_now"
    unfolding fl1_def using increment_props(3)[OF cp(1) c_lt] cp(3) an(1) by simp
  have v: "v \<notin> set vs" and dvs: "distinct vs" using Cons.prems(2) by simp_all
  have "{i. i < length rem \<and> rem ! i \<in> set (v # vs)}
      = set inds \<union> {i. i < length rem \<and> rem ! i \<in> set vs}"
    by (auto simp: sinds)
  moreover have "set inds \<inter> {i. i < length rem \<and> rem ! i \<in> set vs} = {}"
    using v by (auto simp: sinds)
  ultimately have "card {i. i < length rem \<and> rem ! i \<in> set (v # vs)}
      = card (set inds) + card {i. i < length rem \<and> rem ! i \<in> set vs}"
    by (simp add: card_Un_disjoint)
  then have card_split: "int (card {i. i < length rem \<and> rem ! i \<in> set (v # vs)})
      = int (length inds) + int (card {i. i < length rem \<and> rem ! i \<in> set vs})"
    using dinds by (simp add: distinct_card)
  show ?case
  proof (cases "need1 = 0")
    case True
    with res have fl': "fl' = fl1" by simp
    from True have eq: "add_now = need" by (simp add: need1_def)
    then have "need \<le> int (length inds)" by (simp add: add_now_def)
    then have m: "min need (int (card {i. i < length rem \<and> rem ! i \<in> set (v # vs)})) = need"
      unfolding card_split by simp
    have "\<forall>i < length fl. fl ! i \<le> fl1 ! i \<and> fl1 ! i \<le> fl ! i + 1
          \<and> (rem ! i \<notin> set (v # vs) \<longrightarrow> fl1 ! i = fl ! i)"
      using nth1 cp(2) sinds by auto
    then show ?thesis
      unfolding fl' m using len1 sum1 eq by simp
  next
    case False
    with res have r: "add_remainders R rem vs fl1 need1 g1 = (fl', g')" by simp
    have n1: "0 \<le> need1" using an(2) by (simp add: need1_def)
    have l1: "length fl1 = length rem" using len1 Cons.prems(1) by simp
    note IH = Cons.IH[OF l1 dvs n1 r]
    from False have "add_now \<noteq> need" by (simp add: need1_def)
    then have full: "add_now = int (length inds)" by (simp add: add_now_def min_def split: if_splits)
    have entries: "\<forall>i < length fl. fl ! i \<le> fl' ! i \<and> fl' ! i \<le> fl ! i + 1
          \<and> (rem ! i \<notin> set (v # vs) \<longrightarrow> fl' ! i = fl ! i)"
    proof (intro allI impI)
      fix i assume i: "i < length fl"
      with IH len1 have a: "fl1 ! i \<le> fl' ! i" "fl' ! i \<le> fl1 ! i + 1"
        "rem ! i \<notin> set vs \<longrightarrow> fl' ! i = fl1 ! i"
        by simp_all
      from nth1 i have b: "fl1 ! i = fl ! i + (if i \<in> set c then 1 else 0)" by simp
      show "fl ! i \<le> fl' ! i \<and> fl' ! i \<le> fl ! i + 1
          \<and> (rem ! i \<notin> set (v # vs) \<longrightarrow> fl' ! i = fl ! i)"
      proof (cases "i \<in> set c")
        case True
        with cp(2) sinds have "rem ! i = v" by auto
        with v a(3) have "fl' ! i = fl1 ! i" by simp
        with b True show ?thesis by (simp add: \<open>rem ! i = v\<close>)
      next
        case False
        with b have "fl1 ! i = fl ! i" by simp
        with a show ?thesis by auto
      qed
    qed
    have "sum_list fl' = sum_list fl + add_now
        + min need1 (int (card {i. i < length rem \<and> rem ! i \<in> set vs}))"
      using IH sum1 by simp
    also have "\<dots> = sum_list fl
        + min need (int (card {i. i < length rem \<and> rem ! i \<in> set (v # vs)}))"
      unfolding card_split need1_def full by simp
    finally show ?thesis using IH len1 entries by simp
  qed
qed

lemma floor_share:
  fixes c n N :: int
  shows "\<lfloor>(of_int c :: rat) / of_int N * of_int n\<rfloor> = (c * n) div N"
proof -
  have "(of_int c :: rat) / of_int N * of_int n = of_int (c * n) / of_int N" by simp
  then show ?thesis by (simp only: floor_divide_of_int_eq)
qed

lemma sum_shares:
  fixes counts :: "int list"
  assumes "sum_list counts \<noteq> 0"
  shows "(\<Sum>c\<leftarrow>counts. (of_int c :: rat) / of_int (sum_list counts) * of_int n) = of_int n"
proof -
  have "(\<Sum>c\<leftarrow>counts. (of_int c :: rat) / of_int (sum_list counts) * of_int n)
      = (\<Sum>c\<leftarrow>counts. of_int c * (of_int n / of_int (sum_list counts)))"
    by (simp add: field_simps)
  also have "\<dots> = (\<Sum>c\<leftarrow>counts. of_int c) * (of_int n / of_int (sum_list counts))"
    by (rule sum_list_mult_const)
  also have "(\<Sum>c\<leftarrow>counts. (of_int c :: rat)) = of_int (sum_list counts)"
    by (induction counts) simp_all
  finally show ?thesis using assms by simp
qed

lemma add_remainders_zero:
  assumes "permutes R" and "length fl = length rem" and "sorted_wrt (>) vs" and "0 \<le> need"
    and "need \<le> int (card {i. i < length rem \<and> rem ! i \<in> set vs \<and> 0 < rem ! i})"
    and "add_remainders R rem vs fl need g = (fl', g')"
  shows "\<forall>i < length fl. rem ! i \<le> 0 \<longrightarrow> fl' ! i = fl ! i"
  using assms(2-)
proof (induction vs arbitrary: fl need g fl' g')
  case Nil
  then show ?case by simp
next
  case (Cons v vs)
  define inds where "inds = filter (\<lambda>i. rem ! i = v) [0..<length rem]"
  define add_now where "add_now = min (int (length inds)) need"
  obtain c g1 where ch: "choice R g inds (nat add_now) = (c, g1)"
    by (cases "choice R g inds (nat add_now)")
  define fl1 where "fl1 = increment c fl"
  define need1 where "need1 = need - add_now"
  have "add_remainders R rem (v # vs) fl need g
      = (if need1 = 0 then (fl1, g1) else add_remainders R rem vs fl1 need1 g1)"
    by (simp only: add_remainders.simps Let_def inds_def[symmetric] add_now_def[symmetric] ch
        prod.case fl1_def need1_def)
  with Cons.prems(5)
  have res: "(fl', g') = (if need1 = 0 then (fl1, g1) else add_remainders R rem vs fl1 need1 g1)"
    by simp
  have dinds: "distinct inds" by (simp add: inds_def)
  have sinds: "set inds = {i. i < length rem \<and> rem ! i = v}" by (auto simp: inds_def)
  have an: "0 \<le> add_now" "add_now \<le> need" "nat add_now \<le> length inds"
    using Cons.prems(3) by (auto simp: add_now_def)
  note cp = choice_props[OF assms(1) ch dinds an(3)]
  have c_lt: "\<forall>i \<in> set c. i < length fl"
    using cp(2) sinds Cons.prems(1) by auto
  have len1: "length fl1 = length fl"
    unfolding fl1_def by (rule increment_props(1)[OF cp(1) c_lt])
  have nth1: "\<forall>i < length fl. fl1 ! i = fl ! i + (if i \<in> set c then 1 else 0)"
    unfolding fl1_def by (rule increment_props(2)[OF cp(1) c_lt])
  have below: "\<forall>w \<in> set vs. w < v" and svs: "sorted_wrt (>) vs"
    using Cons.prems(2) by auto
  show ?case
  proof (cases "0 < v")
    case True
    have keep: "\<forall>i < length fl. rem ! i \<le> 0 \<longrightarrow> fl1 ! i = fl ! i"
    proof (intro allI impI)
      fix i assume i: "i < length fl" and z: "rem ! i \<le> 0"
      from z True have "rem ! i \<noteq> v" by auto
      with cp(2) sinds have "i \<notin> set c" by auto
      with nth1 i show "fl1 ! i = fl ! i" by simp
    qed
    show ?thesis
    proof (cases "need1 = 0")
      case True
      with res keep show ?thesis by simp
    next
      case False
      with res have r: "add_remainders R rem vs fl1 need1 g1 = (fl', g')" by simp
      from False have "add_now \<noteq> need" by (simp add: need1_def)
      then have full: "add_now = int (length inds)"
        by (simp add: add_now_def min_def split: if_splits)
      have v_notin: "v \<notin> set vs" using below by auto
      have "{i. i < length rem \<and> rem ! i \<in> set (v # vs) \<and> 0 < rem ! i}
          = set inds \<union> {i. i < length rem \<and> rem ! i \<in> set vs \<and> 0 < rem ! i}"
        using True by (auto simp: sinds)
      moreover have "set inds \<inter> {i. i < length rem \<and> rem ! i \<in> set vs \<and> 0 < rem ! i} = {}"
        using v_notin by (auto simp: sinds)
      ultimately have "card {i. i < length rem \<and> rem ! i \<in> set (v # vs) \<and> 0 < rem ! i}
          = card (set inds) + card {i. i < length rem \<and> rem ! i \<in> set vs \<and> 0 < rem ! i}"
        by (simp add: card_Un_disjoint)
      then have "int (card {i. i < length rem \<and> rem ! i \<in> set (v # vs) \<and> 0 < rem ! i})
          = int (length inds) + int (card {i. i < length rem \<and> rem ! i \<in> set vs \<and> 0 < rem ! i})"
        using dinds by (simp add: distinct_card)
      with Cons.prems(4) full
      have b1: "need1 \<le> int (card {i. i < length rem \<and> rem ! i \<in> set vs \<and> 0 < rem ! i})"
        by (simp add: need1_def)
      have n1: "0 \<le> need1" using an(2) by (simp add: need1_def)
      have l1: "length fl1 = length rem" using len1 Cons.prems(1) by simp
      from Cons.IH[OF l1 svs n1 b1 r] keep len1 show ?thesis by simp
    qed
  next
    case False
    have "{i. i < length rem \<and> rem ! i \<in> set (v # vs) \<and> 0 < rem ! i} = {}"
      using False below by fastforce
    then have "card {i. i < length rem \<and> rem ! i \<in> set (v # vs) \<and> 0 < rem ! i} = 0"
      by (simp only: card.empty)
    with Cons.prems(4) have "need \<le> 0" by (simp only: of_nat_0)
    with Cons.prems(3) have "need = 0" by simp
    then have "add_now = 0" "need1 = 0" using an by (simp_all add: need1_def)
    with cp(3) have "c = []" by simp
    then have "fl1 = fl" by (simp add: fl1_def increment_def)
    with res \<open>need1 = 0\<close> show ?thesis by simp
  qed
qed

lemma remainder_sum_le_positive:
  fixes rem :: "rat list"
  assumes "\<forall>x \<in> set rem. x < 1"
  shows "sum_list rem \<le> of_nat (card {i. i < length rem \<and> 0 < rem ! i})"
proof -
  have "sum_list rem \<le> (\<Sum>x\<leftarrow>rem. if 0 < x then 1 else 0)"
    using assms by (induction rem) (auto intro: add_mono)
  also have "(\<Sum>x\<leftarrow>rem. if 0 < x then (1::rat) else 0) = of_nat (length (filter (\<lambda>x. 0 < x) rem))"
    by (induction rem) simp_all
  also have "length (filter (\<lambda>x. 0 < x) rem) = card {i. i < length rem \<and> 0 < rem ! i}"
    by (rule length_filter_conv_card)
  finally show ?thesis .
qed

lemma need_eq_sum_remainders:
  fixes cont :: "rat list"
  assumes "sum_list cont = of_int n"
  shows "(of_int (n - sum_list (map floor cont)) :: rat) = (\<Sum>x\<leftarrow>cont. x - of_int \<lfloor>x\<rfloor>)"
proof -
  have "(of_int (sum_list (map floor xs)) :: rat) = (\<Sum>x\<leftarrow>xs. of_int \<lfloor>x\<rfloor>)" for xs :: "rat list"
    by (induction xs) simp_all
  then have "(of_int (n - sum_list (map floor cont)) :: rat)
      = sum_list cont - (\<Sum>x\<leftarrow>cont. of_int \<lfloor>x\<rfloor>)"
    using assms by simp
  also have "\<dots> = (\<Sum>x\<leftarrow>cont. x - of_int \<lfloor>x\<rfloor>)"
    by (induction cont) simp_all
  finally show ?thesis .
qed

lemma need_bounds:
  fixes cont :: "rat list"
  assumes "sum_list cont = of_int n"
  shows "0 \<le> n - sum_list (map floor cont)"
    and "n - sum_list (map floor cont) \<le> int (length cont)"
    and "n - sum_list (map floor cont)
         \<le> int (card {i. i < length cont \<and> 0 < map (\<lambda>x. x - of_int \<lfloor>x\<rfloor>) cont ! i})"
proof -
  note eq = need_eq_sum_remainders[OF assms]
  have "(0::rat) \<le> (\<Sum>x\<leftarrow>cont. x - of_int \<lfloor>x\<rfloor>)"
    by (rule sum_list_nonneg) auto
  with eq have "(0::rat) \<le> of_int (n - sum_list (map floor cont))" by simp
  then show "0 \<le> n - sum_list (map floor cont)" by (simp only: of_int_0_le_iff)
  have "(\<Sum>x\<leftarrow>cont. x - of_int \<lfloor>x\<rfloor>) \<le> (\<Sum>x\<leftarrow>cont. (1::rat))"
    by (rule sum_list_mono) (simp add: algebra_simps, linarith)
  also have "(\<Sum>x\<leftarrow>cont. (1::rat)) = of_int (int (length cont))"
    by (induction cont) simp_all
  finally have "(of_int (n - sum_list (map floor cont)) :: rat) \<le> of_int (int (length cont))"
    using eq by simp
  then show "n - sum_list (map floor cont) \<le> int (length cont)" by (simp only: of_int_le_iff)
  define rem where "rem = map (\<lambda>x. x - of_int \<lfloor>x\<rfloor>) cont"
  have "\<forall>x \<in> set rem. x < 1" unfolding rem_def by (auto simp: algebra_simps) linarith
  then have "sum_list rem \<le> of_nat (card {i. i < length rem \<and> 0 < rem ! i})"
    by (rule remainder_sum_le_positive)
  moreover have "sum_list rem = of_int (n - sum_list (map floor cont))"
    unfolding rem_def using eq by simp
  ultimately have "(of_int (n - sum_list (map floor cont)) :: rat)
      \<le> of_int (int (card {i. i < length rem \<and> 0 < rem ! i}))"
    by simp
  then have "n - sum_list (map floor cont) \<le> int (card {i. i < length rem \<and> 0 < rem ! i})"
    by (simp only: of_int_le_iff)
  then show "n - sum_list (map floor cont)
         \<le> int (card {i. i < length cont \<and> 0 < map (\<lambda>x. x - of_int \<lfloor>x\<rfloor>) cont ! i})"
    by (simp add: rem_def)
qed

lemma approximate_mode_props:
  assumes "permutes R" and "0 < sum_list counts"
    and "approximate_mode R counts n g = Inr (res, g')"
  shows "length res = length counts"
    and "sum_list res = n"
    and "\<forall>i < length counts. res ! i = (counts ! i * n) div sum_list counts
                            \<or> res ! i = (counts ! i * n) div sum_list counts + 1"
    and "\<forall>i < length counts. sum_list counts dvd counts ! i * n
            \<longrightarrow> res ! i = (counts ! i * n) div sum_list counts"
proof -
  define N where "N = sum_list counts"
  define cont where "cont = map (\<lambda>c. (of_int c :: rat) / of_int N * of_int n) counts"
  define fl where "fl = map floor cont"
  define need where "need = n - sum_list fl"
  define rem where "rem = map (\<lambda>(c, f). c - of_int f) (zip cont fl)"
  define vs where "vs = rev (sorted_list_of_set (set rem))"
  have Npos: "0 < N" using assms(2) by (simp add: N_def)
  have unfolded: "approximate_mode R counts n g
      = (if need > 0 then Inr (add_remainders R rem vs fl need g) else Inr (fl, g))"
    unfolding approximate_mode_def Let_def N_def[symmetric] cont_def[symmetric]
      fl_def[symmetric] need_def[symmetric] rem_def[symmetric] vs_def[symmetric]
    using Npos by simp
  have lfl: "length fl = length counts" by (simp add: fl_def cont_def)
  have lcont: "length cont = length counts" by (simp add: cont_def)
  have nfl: "\<forall>i < length counts. fl ! i = (counts ! i * n) div N"
    unfolding fl_def cont_def by (simp add: floor_share del: times_divide_eq_left)
  have rem_eq: "rem = map (\<lambda>x. x - of_int \<lfloor>x\<rfloor>) cont"
    unfolding rem_def fl_def by (simp add: zip_map2 zip_same_conv_map)
  have lrem: "length rem = length counts" by (simp add: rem_eq lcont)
  have rem_zero: "rem ! i \<le> 0" if "i < length counts" and "N dvd counts ! i * n" for i
  proof -
    from that(2) obtain q where q: "counts ! i * n = N * q" by (rule dvdE)
    have "cont ! i = of_int (counts ! i * n) / of_int N"
      using that(1) by (simp add: cont_def)
    also have "\<dots> = of_int q" using Npos by (simp add: q)
    finally have "cont ! i = of_int q" .
    then show ?thesis using that(1) by (simp add: rem_eq lcont)
  qed
  have "sum_list cont = of_int n"
    unfolding cont_def N_def using assms(2) by (intro sum_shares) simp
  from need_bounds[OF this]
  have nb: "0 \<le> need" "need \<le> int (length counts)"
    "need \<le> int (card {i. i < length rem \<and> 0 < rem ! i})"
    by (simp_all add: need_def fl_def rem_eq lcont)
  have "length res = length counts \<and> sum_list res = n
    \<and> (\<forall>i < length counts. res ! i = (counts ! i * n) div N \<or> res ! i = (counts ! i * n) div N + 1)
    \<and> (\<forall>i < length counts. N dvd counts ! i * n \<longrightarrow> res ! i = (counts ! i * n) div N)"
  proof (cases "need > 0")
    case True
    with unfolded assms(3) have ar: "add_remainders R rem vs fl need g = (res, g')" by simp
    have l: "length fl = length rem" by (simp add: lrem lfl)
    have d: "distinct vs" by (simp add: vs_def)
    have sv: "set vs = set rem" by (simp add: vs_def)
    have srt: "sorted_wrt (>) vs"
      unfolding vs_def sorted_wrt_rev by simp
    have "\<forall>i < length rem. rem ! i \<in> set vs" unfolding sv by simp
    then have all: "{i. i < length rem \<and> rem ! i \<in> set vs} = {i. i < length rem}"
      and pos: "{i. i < length rem \<and> rem ! i \<in> set vs \<and> 0 < rem ! i}
              = {i. i < length rem \<and> 0 < rem ! i}"
      by blast+
    have c: "card {i. i < length rem \<and> rem ! i \<in> set vs} = length counts"
      unfolding all by (simp add: lrem)
    from add_remainders_props[OF assms(1) l d nb(1) ar]
    have p: "length res = length fl"
      "\<forall>i < length fl. fl ! i \<le> res ! i \<and> res ! i \<le> fl ! i + 1"
      "sum_list res = sum_list fl + min need (int (length counts))"
      unfolding c by simp_all
    have nb3: "need \<le> int (card {i. i < length rem \<and> rem ! i \<in> set vs \<and> 0 < rem ! i})"
      unfolding pos by (rule nb(3))
    note z = add_remainders_zero[OF assms(1) l srt nb(1) nb3 ar]
    from p(3) nb(2) have "sum_list res = n" by (simp add: need_def)
    moreover have "\<forall>i < length counts.
        res ! i = (counts ! i * n) div N \<or> res ! i = (counts ! i * n) div N + 1"
    proof (intro allI impI)
      fix i assume i: "i < length counts"
      with p(2) lfl have "fl ! i \<le> res ! i" "res ! i \<le> fl ! i + 1" by simp_all
      then have "res ! i = fl ! i \<or> res ! i = fl ! i + 1" by linarith
      with nfl i show "res ! i = (counts ! i * n) div N \<or> res ! i = (counts ! i * n) div N + 1"
        by simp
    qed
    moreover have "\<forall>i < length counts. N dvd counts ! i * n \<longrightarrow> res ! i = (counts ! i * n) div N"
    proof (intro allI impI)
      fix i assume i: "i < length counts" and dv: "N dvd counts ! i * n"
      from rem_zero[OF i dv] z i lfl have "res ! i = fl ! i" by simp
      with nfl i show "res ! i = (counts ! i * n) div N" by simp
    qed
    ultimately show ?thesis using p(1) lfl by simp
  next
    case False
    with unfolded assms(3) have "res = fl" by simp
    moreover from False nb(1) have "need = 0" by simp
    ultimately show ?thesis using lfl nfl by (simp add: need_def)
  qed
  then show "length res = length counts" and "sum_list res = n"
    and "\<forall>i < length counts. res ! i = (counts ! i * n) div sum_list counts
                            \<or> res ! i = (counts ! i * n) div sum_list counts + 1"
    and "\<forall>i < length counts. sum_list counts dvd counts ! i * n
            \<longrightarrow> res ! i = (counts ! i * n) div sum_list counts"
    by (simp_all add: N_def)
qed

lemma approximate_mode_exact:
  assumes "sum_list counts = n" and "0 < n"
  shows "approximate_mode R counts n g = Inr (counts, g)"
proof -
  have n0: "(of_int n :: rat) \<noteq> 0" using assms(2) by simp
  have cont: "map (\<lambda>c. (of_int c :: rat) / of_int (sum_list counts) * of_int n) counts
            = map of_int counts"
    using n0 by (simp add: assms(1))
  have fl: "map floor (map (of_int :: int \<Rightarrow> rat) counts) = counts"
    by (simp add: o_def)
  show ?thesis
    unfolding approximate_mode_def Let_def cont fl
    using assms by simp
qed

section \<open>The loop over the classes\<close>

lemma slice_front: "0 \<le> n \<Longrightarrow> slice xs 0 n = take (nat n) xs"
  by (simp add: slice_def bound_def Let_def min_def)

lemma slice_rest:
  assumes "0 \<le> n" and "0 \<le> t" and "n + t = int (length xs)"
  shows "slice xs n (n + t) = drop (nat n) xs"
proof -
  from assms have "bound (length xs) n = nat n" by (simp add: bound_def)
  moreover from assms have "bound (length xs) (n + t) = length xs" by (simp add: bound_def)
  ultimately show ?thesis by (simp add: slice_def Let_def)
qed

lemma class_step_parts:
  assumes "permutes R"
    and "0 \<le> n_i ! i" and "0 \<le> t_i ! i" and "n_i ! i + t_i ! i = int (length (cls ! i))"
  shows "\<exists>a b g1. class_step R cls n_i t_i i ((tr0, te0), g) = ((tr0 @ a, te0 @ b), g1)
           \<and> mset a + mset b = mset (cls ! i)
           \<and> int (length a) = n_i ! i \<and> int (length b) = t_i ! i"
proof -
  obtain perm g1 where p: "permutation R g (length (cls ! i)) = (perm, g1)"
    by (cases "permutation R g (length (cls ! i))")
  define pi where "pi = take_clip (cls ! i) perm"
  have m: "mset pi = mset (cls ! i)" unfolding pi_def by (rule mset_take_clip[OF assms(1) p])
  then have len: "length pi = length (cls ! i)" by (rule mset_eq_length)
  have s1: "slice pi 0 (n_i ! i) = take (nat (n_i ! i)) pi"
    using assms(2) by (rule slice_front)
  have s2: "slice pi (n_i ! i) (n_i ! i + t_i ! i) = drop (nat (n_i ! i)) pi"
    using assms(2,3) by (rule slice_rest) (simp add: assms(4) len)
  have "class_step R cls n_i t_i i ((tr0, te0), g)
      = ((tr0 @ slice pi 0 (n_i ! i), te0 @ slice pi (n_i ! i) (n_i ! i + t_i ! i)), g1)"
    by (simp add: class_step_def p pi_def[symmetric] Let_def del: slice_def)
  then have step: "class_step R cls n_i t_i i ((tr0, te0), g)
      = ((tr0 @ take (nat (n_i ! i)) pi, te0 @ drop (nat (n_i ! i)) pi), g1)"
    by (simp only: s1 s2)
  have "mset (take (nat (n_i ! i)) pi) + mset (drop (nat (n_i ! i)) pi) = mset (cls ! i)"
    by (metis append_take_drop_id m mset_append)
  moreover have "int (length (take (nat (n_i ! i)) pi)) = n_i ! i"
    using assms(2-4) len by simp
  moreover have "int (length (drop (nat (n_i ! i)) pi)) = t_i ! i"
    using assms(2-4) len by simp
  ultimately show ?thesis using step by blast
qed

lemma length_filter_const:
  assumes "\<forall>p \<in> set xs. key p = l"
  shows "length (filter (\<lambda>p. key p = c) xs) = (if l = c then length xs else 0)"
  using assms by (induction xs) auto

lemma fold_class_step:
  assumes "permutes R"
    and "\<forall>i \<in> set is. 0 \<le> n_i ! i \<and> 0 \<le> t_i ! i
           \<and> n_i ! i + t_i ! i = int (length (cls ! i))
           \<and> (\<forall>p \<in> set (cls ! i). key p = lab i)"
    and "fold (class_step R cls n_i t_i) is ((tr0, te0), g) = ((tr, te), g')"
  shows "mset tr + mset te = mset tr0 + mset te0 + mset (concat (map (\<lambda>i. cls ! i) is))
    \<and> (\<forall>c. int (length (filter (\<lambda>p. key p = c) tr))
            = int (length (filter (\<lambda>p. key p = c) tr0))
              + (\<Sum>i\<leftarrow>is. if lab i = c then n_i ! i else 0))
    \<and> (\<forall>c. int (length (filter (\<lambda>p. key p = c) te))
            = int (length (filter (\<lambda>p. key p = c) te0))
              + (\<Sum>i\<leftarrow>is. if lab i = c then t_i ! i else 0))"
  using assms(2-)
proof (induction "is" arbitrary: tr0 te0 g)
  case Nil
  then show ?case by simp
next
  case (Cons i "is")
  from Cons.prems(1) have i: "0 \<le> n_i ! i" "0 \<le> t_i ! i"
    "n_i ! i + t_i ! i = int (length (cls ! i))" "\<forall>p \<in> set (cls ! i). key p = lab i"
    by simp_all
  from class_step_parts[OF assms(1) i(1-3)] obtain a b g1 where
    step: "class_step R cls n_i t_i i ((tr0, te0), g) = ((tr0 @ a, te0 @ b), g1)"
    and m: "mset a + mset b = mset (cls ! i)"
    and la: "int (length a) = n_i ! i" and lb: "int (length b) = t_i ! i"
    by blast
  from Cons.prems(2) step
  have f: "fold (class_step R cls n_i t_i) is ((tr0 @ a, te0 @ b), g1) = ((tr, te), g')"
    by simp
  from Cons.prems(1) have rest: "\<forall>i \<in> set is. 0 \<le> n_i ! i \<and> 0 \<le> t_i ! i
           \<and> n_i ! i + t_i ! i = int (length (cls ! i))
           \<and> (\<forall>p \<in> set (cls ! i). key p = lab i)"
    by simp
  note IH = Cons.IH[OF rest f]
  from m have "set a \<union> set b = set (cls ! i)" by (metis mset_append set_append set_mset_mset)
  with i(4) have ka: "\<forall>p \<in> set a. key p = lab i" and kb: "\<forall>p \<in> set b. key p = lab i"
    by auto
  have fa: "int (length (filter (\<lambda>p. key p = c) a)) = (if lab i = c then n_i ! i else 0)" for c
    using length_filter_const[OF ka, of c] la by simp
  have fb: "int (length (filter (\<lambda>p. key p = c) b)) = (if lab i = c then t_i ! i else 0)" for c
    using length_filter_const[OF kb, of c] lb by simp
  have "mset tr + mset te
      = mset tr0 + mset te0 + (mset a + mset b) + mset (concat (map (\<lambda>i. cls ! i) is))"
    using IH by (simp add: ac_simps)
  then have 1: "mset tr + mset te
      = mset tr0 + mset te0 + mset (concat (map (\<lambda>i. cls ! i) (i # is)))"
    by (simp add: m ac_simps)
  have 2: "int (length (filter (\<lambda>p. key p = c) tr))
            = int (length (filter (\<lambda>p. key p = c) tr0))
              + (\<Sum>i\<leftarrow>(i # is). if lab i = c then n_i ! i else 0)" for c
    using IH fa[of c] by simp
  have 3: "int (length (filter (\<lambda>p. key p = c) te))
            = int (length (filter (\<lambda>p. key p = c) te0))
              + (\<Sum>i\<leftarrow>(i # is). if lab i = c then t_i ! i else 0)" for c
    using IH fb[of c] by simp
  from 1 2 3 show ?case by blast
qed

lemma sum_list_single:
  fixes f :: "nat \<Rightarrow> int"
  assumes "distinct cs" and "m < length cs"
  shows "(\<Sum>i\<leftarrow>[0..<length cs]. if cs ! i = cs ! m then f i else 0) = f m"
proof -
  have "(\<Sum>i\<leftarrow>[0..<length cs]. if cs ! i = cs ! m then f i else 0)
      = (\<Sum>i\<leftarrow>[0..<length cs]. if i = m then f i else 0)"
    using assms by (intro arg_cong[where f = sum_list] map_cong refl) (simp add: nth_eq_iff_index_eq)
  also have "\<dots> = (\<Sum>i \<in> {0..<length cs}. if i = m then f i else 0)"
    by (simp add: interv_sum_list_conv_sum_set_nat)
  also have "\<dots> = f m" using assms(2) by simp
  finally show ?thesis .
qed

lemma sum_list_none:
  fixes f :: "nat \<Rightarrow> int"
  assumes "c \<notin> set cs"
  shows "(\<Sum>i\<leftarrow>[0..<length cs]. if cs ! i = c then f i else 0) = 0"
proof -
  have "(\<Sum>i\<leftarrow>[0..<length cs]. if cs ! i = c then f i else 0) = (\<Sum>i\<leftarrow>[0..<length cs]. 0)"
    using assms by (intro arg_cong[where f = sum_list] map_cong refl) auto
  then show ?thesis by simp
qed

lemma mset_concat_classes:
  assumes "distinct cs" and "\<forall>x \<in> set xs. key x \<in> set cs"
  shows "mset (concat (map (\<lambda>c. filter (\<lambda>x. key x = c) xs) cs)) = mset xs"
proof -
  have "mset (concat (map (\<lambda>c. filter (\<lambda>x. key x = c) xs) cs))
      = mset (filter (\<lambda>x. key x \<in> set cs) xs)" if "distinct cs" for cs
    using that
  proof (induction cs)
    case Nil
    then show ?case by simp
  next
    case (Cons c cs)
    have "mset (filter (\<lambda>x. key x = c) ys) + mset (filter (\<lambda>x. key x \<in> set cs) ys)
        = mset (filter (\<lambda>x. key x \<in> set (c # cs)) ys)" for ys
      using Cons.prems by (induction ys) auto
    with Cons show ?case by simp
  qed
  from this[OF assms(1)] assms(2) show ?thesis by (simp cong: filter_cong)
qed

lemma sum_count_list_classes:
  assumes "distinct cs" and "set ys \<subseteq> set cs"
  shows "(\<Sum>c\<leftarrow>cs. int (count_list ys c)) = int (length ys)"
proof -
  have "mset (concat (map (\<lambda>c. filter (\<lambda>x. x = c) ys) cs)) = mset ys"
    using assms by (intro mset_concat_classes) auto
  then have "length (concat (map (\<lambda>c. filter (\<lambda>x. x = c) ys) cs)) = length ys"
    by (rule mset_eq_length)
  moreover have "length (filter (\<lambda>x. x = c) ys) = count_list ys c" for c
    by (induction ys) auto
  ultimately have "(\<Sum>c\<leftarrow>cs. count_list ys c) = length ys"
    by (simp add: length_concat o_def)
  then have "int (\<Sum>c\<leftarrow>cs. count_list ys c) = int (length ys)" by simp
  then show ?thesis by (simp add: o_def flip: sum_list_of_nat) 
qed

section \<open>The stratified positions\<close>

lemma length_filter_positions:
  "length (filter (\<lambda>p. y ! p = c) [0..<length y]) = count_list y c"
proof -
  have "length (filter (\<lambda>p. y ! p = c) [0..<length y])
      = length (filter (\<lambda>v. v = c) (map (\<lambda>p. y ! p) [0..<length y]))"
    by (simp add: filter_map o_def)
  also have "\<dots> = length (filter (\<lambda>v. v = c) y)" by (simp add: map_nth)
  also have "\<dots> = count_list y c" by (induction y) auto
  finally show ?thesis .
qed

lemma sum_list_diff:
  fixes xs ys :: "int list"
  assumes "length xs = length ys"
  shows "sum_list (map (\<lambda>(c, n). c - n) (zip xs ys)) = sum_list xs - sum_list ys"
  using assms by (induction xs ys rule: list_induct2) simp_all

lemma length_filter_mset_eq:
  assumes "mset xs = mset ys"
  shows "length (filter P xs) = length (filter P ys)"
proof -
  have "mset (filter P xs) = mset (filter P ys)" by (simp only: mset_filter assms)
  then show ?thesis by (rule mset_eq_length)
qed

lemma share_bounds:
  fixes c n N :: nat
  assumes "0 < c" and "n < N"
  shows "0 \<le> (int c * int n) div int N" and "(int c * int n) div int N + 1 \<le> int c"
proof -
  have eq: "(int c * int n) div int N = int ((c * n) div N)" by (simp add: zdiv_int)
  show "0 \<le> (int c * int n) div int N" unfolding eq by simp
  from assms have "c * n < c * N" by simp
  then have "(c * n) div N < c" by (simp add: less_mult_imp_div_less mult.commute)
  then show "(int c * int n) div int N + 1 \<le> int c" unfolding eq by simp
qed

lemma rounded_share_close:
  assumes "rounded_share a c n N" and "0 < N"
  shows "\<bar>a * N - c * n\<bar> < N"
proof -
  define q where "q = (c * n) div N"
  define r where "r = (c * n) mod N"
  have cn: "c * n = q * N + r" by (simp add: q_def r_def)
  have r: "0 \<le> r" "r < N" using assms(2) by (simp_all add: r_def)
  from assms(1) have "a = q \<or> (a = q + 1 \<and> r \<noteq> 0)"
    by (simp add: rounded_share_def q_def r_def)
  then show ?thesis
  proof
    assume "a = q"
    then have "a * N - c * n = - r" by (simp add: cn)
    with r show ?thesis by simp
  next
    assume "a = q + 1 \<and> r \<noteq> 0"
    then have "a * N - c * n = N - r" "r \<noteq> 0" by (simp_all add: cn algebra_simps)
    with r show ?thesis by simp
  qed
qed

lemma iter_indices_props:
  assumes "permutes R" and "distinct classes" and "set classes = set y"
    and "class_counts = map (\<lambda>c. int (count_list y c)) classes"
    and "length y = n_train + n_test" and "0 < n_test" and "0 < n_train"
    and "iter_indices R rng y classes class_counts n_train n_test = Inr (train, test)"
  shows "mset train + mset test = mset [0..<length y]"
    and "\<forall>c. rounded_share (int (length (filter (\<lambda>p. y ! p = c) train)))
               (int (count_list y c)) (int n_train) (int (length y))
           \<and> int (length (filter (\<lambda>p. y ! p = c) test))
               = int (count_list y c) - int (length (filter (\<lambda>p. y ! p = c) train))"
    and "length train = n_train"
proof -
  define k where "k = length classes"
  define N where "N = int (length y)"
  define cls where "cls = map (\<lambda>c. filter (\<lambda>p. y ! p = c) [0..<length y]) classes"
  have sumc: "sum_list class_counts = N"
    unfolding assms(4) N_def using assms(2,3) by (intro sum_count_list_classes) simp_all
  have Npos: "0 < N" using assms(5,6) by (simp add: N_def)
  have lcc: "length class_counts = k" by (simp add: assms(4) k_def)
  have cc: "class_counts ! m = int (count_list y (classes ! m))" if "m < k" for m
    using that by (simp add: assms(4) k_def)
  have cpos: "0 < count_list y (classes ! m)" if "m < k" for m
  proof -
    from that have "classes ! m \<in> set classes" by (simp add: k_def)
    then have "classes ! m \<in> set y" by (simp only: assms(3))
    then have "count_list y (classes ! m) \<noteq> 0" by (simp only: count_list_0_iff not_not)
    then show ?thesis by simp
  qed
  from assms(8) obtain n_i g1 where
    am1: "approximate_mode R class_counts (int n_train) rng = Inr (n_i, g1)"
    and rest1: "(let class_counts_remaining = map (\<lambda>(c, n). c - n) (zip class_counts n_i)
         in and_then (approximate_mode R class_counts_remaining (int n_test) g1) (\<lambda>(t_i, rng).
            case fold (class_step R cls n_i t_i) [0..<length classes] (([], []), rng)
            of ((train, test), rng) \<Rightarrow>
              (case shuffled R rng train of (train, rng) \<Rightarrow>
                (case shuffled R rng test of (test, rng) \<Rightarrow> Inr (train, test)))))
        = Inr (train, test)"
    unfolding iter_indices_def Let_def cls_def[symmetric]
    by (auto simp: and_then_Inr Let_def)
  have sc: "0 < sum_list class_counts" using sumc Npos by simp
  note ap = approximate_mode_props[OF assms(1) sc am1]
  have ln: "length n_i = k" using ap(1) lcc by simp
  have sn: "sum_list n_i = int n_train" by (rule ap(2))
  have rs: "rounded_share (n_i ! m) (int (count_list y (classes ! m))) (int n_train) N"
    if "m < k" for m
  proof -
    from that ap(3) lcc have a: "n_i ! m = (class_counts ! m * int n_train) div N
        \<or> n_i ! m = (class_counts ! m * int n_train) div N + 1"
      by (simp add: sumc)
    from that ap(4) lcc have b: "N dvd class_counts ! m * int n_train
        \<longrightarrow> n_i ! m = (class_counts ! m * int n_train) div N"
      by (simp add: sumc)
    from a b show ?thesis
      unfolding rounded_share_def cc[OF that] by (auto simp: mod_eq_0_iff_dvd)
  qed
  have nlt: "n_train < length y" using assms(5,6) by simp
  have nb: "0 \<le> n_i ! m \<and> n_i ! m \<le> int (count_list y (classes ! m))" if "m < k" for m
  proof -
    note sb = share_bounds[OF cpos[OF that] nlt]
    from rs[OF that] have "n_i ! m = (int (count_list y (classes ! m)) * int n_train) div N
        \<or> n_i ! m = (int (count_list y (classes ! m)) * int n_train) div N + 1"
      by (auto simp: rounded_share_def)
    with sb show ?thesis unfolding N_def by linarith
  qed
  define rem where "rem = map (\<lambda>(c, n). c - n) (zip class_counts n_i)"
  have lrem: "length rem = k" by (simp add: rem_def lcc ln)
  have remm: "rem ! m = int (count_list y (classes ! m)) - n_i ! m" if "m < k" for m
    using that by (simp add: rem_def lcc ln cc)
  have "sum_list rem = sum_list class_counts - sum_list n_i"
    unfolding rem_def by (rule sum_list_diff) (simp add: lcc ln)
  then have srem: "sum_list rem = int n_test"
    using sumc sn assms(5) by (simp add: N_def)
  have am2: "approximate_mode R rem (int n_test) g1 = Inr (rem, g1)"
    by (rule approximate_mode_exact[OF srem]) (simp add: assms(6))
  obtain tr te g2 where
    fo: "fold (class_step R cls n_i rem) [0..<length classes] (([], []), g1) = ((tr, te), g2)"
    by (metis surj_pair)
  obtain g3 where s1: "shuffled R g2 tr = (train, g3)"
    and s2: "fst (shuffled R g3 te) = test"
    using rest1 unfolding Let_def rem_def[symmetric]
    by (auto simp: am2 and_then_def fo split: prod.splits)
  obtain g4 where s2': "shuffled R g3 te = (test, g4)" using s2 by (cases "shuffled R g3 te") auto
  have mtrain: "mset train = mset tr" by (rule mset_shuffled[OF assms(1) s1])
  have mtest: "mset test = mset te" by (rule mset_shuffled[OF assms(1) s2'])
  have cond: "\<forall>i \<in> set [0..<length classes]. 0 \<le> n_i ! i \<and> 0 \<le> rem ! i
           \<and> n_i ! i + rem ! i = int (length (cls ! i))
           \<and> (\<forall>p \<in> set (cls ! i). y ! p = classes ! i)"
  proof
    fix i assume "i \<in> set [0..<length classes]"
    then have i: "i < k" by (simp add: k_def)
    then have ci: "cls ! i = filter (\<lambda>p. y ! p = classes ! i) [0..<length y]"
      by (simp add: cls_def k_def)
    have "int (length (cls ! i)) = int (count_list y (classes ! i))"
      unfolding ci by (simp only: length_filter_positions)
    moreover have "\<forall>p \<in> set (cls ! i). y ! p = classes ! i" unfolding ci by simp
    ultimately show "0 \<le> n_i ! i \<and> 0 \<le> rem ! i
           \<and> n_i ! i + rem ! i = int (length (cls ! i))
           \<and> (\<forall>p \<in> set (cls ! i). y ! p = classes ! i)"
      using nb[OF i] remm[OF i] by simp
  qed
  note fc = fold_class_step[OF assms(1) cond fo]
  have cond1: "\<forall>i \<in> set [0..<length classes]. 0 \<le> n_i ! i \<and> 0 \<le> rem ! i
           \<and> n_i ! i + rem ! i = int (length (cls ! i))
           \<and> (\<forall>p \<in> set (cls ! i). (\<lambda>p. True) p = (\<lambda>i. True) i)"
    using cond by simp
  note fold_class_step[OF assms(1) cond1 fo, THEN conjunct2, THEN conjunct1,
      THEN spec[where x = True]]
  then have "int (length tr) = (\<Sum>i\<leftarrow>[0..<length n_i]. n_i ! i)"
    by (simp add: ln k_def)
  also have "\<dots> = sum_list n_i" by (simp only: map_nth)
  finally have "length tr = n_train" using sn by simp
  moreover have "length train = length tr" using mtrain by (rule mset_eq_length)
  ultimately show "length train = n_train" by simp
  have "map (\<lambda>i. cls ! i) [0..<length classes] = cls"
    by (metis cls_def length_map map_nth)
  then have "mset tr + mset te = mset (concat cls)" using fc by simp
  also have "mset (concat cls) = mset [0..<length y]"
    unfolding cls_def using assms(2,3) by (intro mset_concat_classes) auto
  finally show "mset train + mset test = mset [0..<length y]" by (simp add: mtrain mtest)
  have ctr: "int (length (filter (\<lambda>p. y ! p = c) train))
      = (\<Sum>i\<leftarrow>[0..<length classes]. if classes ! i = c then n_i ! i else 0)" for c
    using fc length_filter_mset_eq[OF mtrain] by simp
  have cte: "int (length (filter (\<lambda>p. y ! p = c) test))
      = (\<Sum>i\<leftarrow>[0..<length classes]. if classes ! i = c then rem ! i else 0)" for c
    using fc length_filter_mset_eq[OF mtest] by simp
  show "\<forall>c. rounded_share (int (length (filter (\<lambda>p. y ! p = c) train)))
               (int (count_list y c)) (int n_train) (int (length y))
           \<and> int (length (filter (\<lambda>p. y ! p = c) test))
               = int (count_list y c) - int (length (filter (\<lambda>p. y ! p = c) train))"
  proof
    fix c
    show "rounded_share (int (length (filter (\<lambda>p. y ! p = c) train)))
               (int (count_list y c)) (int n_train) (int (length y))
           \<and> int (length (filter (\<lambda>p. y ! p = c) test))
               = int (count_list y c) - int (length (filter (\<lambda>p. y ! p = c) train))"
    proof (cases "c \<in> set classes")
      case True
      then obtain m where m: "m < length classes" "classes ! m = c"
        by (auto simp: in_set_conv_nth)
      then have mk: "m < k" by (simp add: k_def)
      have "int (length (filter (\<lambda>p. y ! p = c) train)) = n_i ! m"
        unfolding ctr m(2)[symmetric] by (rule sum_list_single[OF assms(2) m(1)])
      moreover have "int (length (filter (\<lambda>p. y ! p = c) test)) = rem ! m"
        unfolding cte m(2)[symmetric] by (rule sum_list_single[OF assms(2) m(1)])
      ultimately show ?thesis using rs[OF mk] remm[OF mk] by (simp add: m(2) N_def)
    next
      case False
      then have "int (length (filter (\<lambda>p. y ! p = c) train)) = 0"
        unfolding ctr by (rule sum_list_none)
      moreover from False have "int (length (filter (\<lambda>p. y ! p = c) test)) = 0"
        unfolding cte by (rule sum_list_none)
      moreover from False assms(3) have "count_list y c = 0" by (simp add: count_list_0_iff)
      ultimately show ?thesis by (simp add: rounded_share_def)
    qed
  qed
qed

section \<open>Properties of \<^verbatim>\<open>train_test_split\<close>\<close>

lemma unique_props:
  assumes "unique y = Inr classes"
  shows "distinct classes" and "set classes = set y"
proof -
  have num: "Num ` set (List.map_filter the_num ys) = set ys"
    if "list_all (\<lambda>v. the_num v \<noteq> None) ys" for ys
    using that
  proof (induction ys)
    case Nil
    then show ?case by (simp add: List.map_filter_simps)
  next
    case (Cons v ys)
    then obtain n where "v = Num n" by (cases v) auto
    with Cons show ?case by (simp add: List.map_filter_simps)
  qed
  have str: "Str ` set (List.map_filter the_str ys) = set ys"
    if "list_all (\<lambda>v. the_str v \<noteq> None) ys" for ys
    using that
  proof (induction ys)
    case Nil
    then show ?case by (simp add: List.map_filter_simps)
  next
    case (Cons v ys)
    then obtain s where "v = Str s" by (cases v) auto
    with Cons show ?case by (simp add: List.map_filter_simps)
  qed
  have dn: "distinct (map Num xs)" if "distinct xs" for xs
    using that by (simp add: distinct_map inj_on_def)
  have ds: "distinct (map Str xs)" if "distinct xs" for xs
    using that by (simp add: distinct_map inj_on_def)
  consider (n) "list_all (\<lambda>v. the_num v \<noteq> None) y"
      "classes = map Num (sorted_list_of_set (set (List.map_filter the_num y)))"
    | (s) "list_all (\<lambda>v. the_str v \<noteq> None) y"
      "classes = map Str (sorted_list_of_set (set (List.map_filter the_str y)))"
    using assms by (auto simp: unique_def split: if_splits)
  then have "distinct classes \<and> set classes = set y"
  proof cases
    case n
    have "set (map Num (sorted_list_of_set (set (List.map_filter the_num y))))
        = Num ` set (List.map_filter the_num y)" by simp
    with num[OF n(1)] dn[OF distinct_sorted_list_of_set] show ?thesis unfolding n(2) by simp
  next
    case s
    have "set (map Str (sorted_list_of_set (set (List.map_filter the_str y))))
        = Str ` set (List.map_filter the_str y)" by simp
    with str[OF s(1)] ds[OF distinct_sorted_list_of_set] show ?thesis unfolding s(2) by simp
  qed
  then show "distinct classes" and "set classes = set y" by simp_all
qed

lemma stratified_shuffle_split_props:
  assumes "permutes R" and "length y = n_train + n_test" and "0 < n_test" and "0 < n_train"
    and "stratified_shuffle_split R ambient random_state n_train n_test y = Inr (train, test)"
  shows "mset train + mset test = mset [0..<length y]"
    and "\<forall>c. rounded_share (int (length (filter (\<lambda>p. y ! p = c) train)))
               (int (count_list y c)) (int n_train) (int (length y))
           \<and> int (length (filter (\<lambda>p. y ! p = c) test))
               = int (count_list y c) - int (length (filter (\<lambda>p. y ! p = c) train))"
    and "length train = n_train"
proof -
  from assms(5) obtain classes where u: "unique y = Inr classes"
    and it: "iter_indices R (check_random_state R ambient random_state) y classes
               (map (\<lambda>c. int (count_list y c)) classes) n_train n_test = Inr (train, test)"
    unfolding stratified_shuffle_split_def Let_def
    by (auto simp: and_then_Inr split: if_splits)
  note up = unique_props[OF u]
  show "mset train + mset test = mset [0..<length y]"
    by (rule iter_indices_props(1)[OF assms(1) up refl assms(2,3,4) it])
  show "\<forall>c. rounded_share (int (length (filter (\<lambda>p. y ! p = c) train)))
               (int (count_list y c)) (int n_train) (int (length y))
           \<and> int (length (filter (\<lambda>p. y ! p = c) test))
               = int (count_list y c) - int (length (filter (\<lambda>p. y ! p = c) train))"
    by (rule iter_indices_props(2)[OF assms(1) up refl assms(2,3,4) it])
  show "length train = n_train"
    by (rule iter_indices_props(3)[OF assms(1) up refl assms(2,3,4) it])
qed

lemma validate_shuffle_split_props:
  assumes "validate_shuffle_split n test_size = Inr (n_train, n_test)"
  shows "n = n_train + n_test" and "0 < n_train" and "0 < n_test"
    and "n_test = nat \<lceil>test_size * of_nat n\<rceil>"
proof -
  from assms have ts: "0 < test_size" "test_size < 1"
    and nt: "n_test = nat \<lceil>test_size * of_nat n\<rceil>" and ntr: "n_train = n - n_test"
    and ne: "n_train \<noteq> 0"
    by (auto simp: validate_shuffle_split_def Let_def split: if_splits)
  show "n_test = nat \<lceil>test_size * of_nat n\<rceil>" by (rule nt)
  from ne show "0 < n_train" by simp
  from ne ntr show "n = n_train + n_test" by simp
  from ne ntr have "0 < n" by simp
  with ts(1) have "0 < test_size * of_nat n" by simp
  then have "0 < \<lceil>test_size * of_nat n\<rceil>" by (simp only: ceiling_less_iff of_int_0 add_0 zero_less_ceiling)
  then show "0 < n_test" by (simp add: nt)
qed

lemma count_list_map_nth:
  "count_list (map (\<lambda>p. y ! p) ps) c = length (filter (\<lambda>p. y ! p = c) ps)"
  by (induction ps) auto

lemma mset_iloc:
  assumes "mset train + mset test = mset [0..<length (rows df)]"
  shows "mset (rows (iloc df train)) + mset (rows (iloc df test)) = mset (rows df)"
proof -
  have "mset (rows (iloc df train)) + mset (rows (iloc df test))
      = image_mset (\<lambda>p. rows df ! p) (mset train + mset test)"
    by (simp add: iloc_def)
  also have "\<dots> = image_mset (\<lambda>p. rows df ! p) (mset [0..<length (rows df)])"
    by (simp only: assms)
  also have "\<dots> = mset (map (\<lambda>p. rows df ! p) [0..<length (rows df)])" by simp
  also have "\<dots> = mset (rows df)" by (simp only: map_nth)
  finally show ?thesis .
qed

lemma map_iloc:
  assumes "set ps \<subseteq> {0..<length (rows df)}"
  shows "map f (rows (iloc df ps)) = map (\<lambda>p. map f (rows df) ! p) ps"
  using assms by (auto simp: iloc_def)

lemma train_test_split_props:
  assumes "permutes R" and "y = map f (rows df)"
    and "train_test_split R ambient df y test_size random_state = Inr (A, B)"
  shows "mset (rows A) + mset (rows B) = mset (rows df)"
    and "columns A = columns df" and "columns B = columns df"
    and "0 < length (rows A)" and "0 < length (rows B)"
    and "length (rows B) = nat \<lceil>test_size * of_nat (length (rows df))\<rceil>"
    and "\<forall>c. rounded_share (int (count_list (map f (rows A)) c)) (int (count_list y c))
               (int (length (rows A))) (int (length (rows df)))
           \<and> int (count_list (map f (rows B)) c)
               = int (count_list y c) - int (count_list (map f (rows A)) c)"
proof -
  define N where "N = length (rows df)"
  have ly: "length y = N" by (simp add: assms(2) N_def)
  from assms(3) obtain n_train n_test train test where
    v: "validate_shuffle_split N test_size = Inr (n_train, n_test)"
    and ss: "stratified_shuffle_split R ambient random_state n_train n_test y = Inr (train, test)"
    and A: "A = iloc df train" and B: "B = iloc df test"
    unfolding train_test_split_def N_def[symmetric]
    by (auto simp: and_then_Inr ly split: if_splits)
  note vp = validate_shuffle_split_props[OF v]
  have l: "length y = n_train + n_test" using vp(1) ly by simp
  note sp = stratified_shuffle_split_props[OF assms(1) l vp(3) vp(2) ss]
  have m: "mset train + mset test = mset [0..<length (rows df)]"
    using sp(1) ly by (simp add: N_def)
  show "mset (rows A) + mset (rows B) = mset (rows df)"
    unfolding A B by (rule mset_iloc[OF m])
  show "columns A = columns df" and "columns B = columns df"
    by (simp_all add: A B iloc_def)
  have lA: "length (rows A) = n_train" by (simp add: A iloc_def sp(3))
  from m have "length train + length test = N"
    by (metis N_def length_append length_upt diff_zero mset_append mset_eq_length)
  then have lB: "length (rows B) = n_test" using sp(3) vp(1) by (simp add: B iloc_def)
  show "0 < length (rows A)" and "0 < length (rows B)"
    using vp(2,3) by (simp_all add: lA lB)
  show "length (rows B) = nat \<lceil>test_size * of_nat (length (rows df))\<rceil>"
    using vp(4) by (simp add: lB N_def)
  from m have "set_mset (mset train + mset test) = set_mset (mset [0..<length (rows df)])"
    by simp
  then have sub: "set train \<subseteq> {0..<length (rows df)}" "set test \<subseteq> {0..<length (rows df)}"
    by auto
  have cA: "count_list (map f (rows A)) c = length (filter (\<lambda>p. y ! p = c) train)" for c
    unfolding A map_iloc[OF sub(1)] assms(2)[symmetric] by (rule count_list_map_nth)
  have cB: "count_list (map f (rows B)) c = length (filter (\<lambda>p. y ! p = c) test)" for c
    unfolding B map_iloc[OF sub(2)] assms(2)[symmetric] by (rule count_list_map_nth)
  show "\<forall>c. rounded_share (int (count_list (map f (rows A)) c)) (int (count_list y c))
               (int (length (rows A))) (int (length (rows df)))
           \<and> int (count_list (map f (rows B)) c)
               = int (count_list y c) - int (count_list (map f (rows A)) c)"
    using sp(2) unfolding cA cB lA ly N_def by simp
qed

lemma labels_of_same_columns:
  assumes "position_of (Named ''label'') (columns df) = Some j" and "columns X = columns df"
  shows "labels_of X = map (\<lambda>(i, r). r ! j) (rows X)"
    and "get_column X (Named ''label'') = Inr (map (\<lambda>(i, r). r ! j) (rows X))"
  using assms by (simp_all add: labels_of_def get_column_def)

text \<open>What a successful run of the split cell consists of.\<close>

lemma split_dataset_stages:
  assumes "split_dataset R ambient df = Inr (df_train, df_val, df_test)"
  obtains j first where
    "position_of (Named ''label'') (columns df) = Some j"
    "train_test_split R ambient df (map (\<lambda>(i, r). r ! j) (rows df)) (1/10) (Some 42)
       = Inr (first, df_test)"
    "train_test_split R ambient first (map (\<lambda>(i, r). r ! j) (rows first)) (1/10) (Some 42)
       = Inr (df_train, df_val)"
    "columns first = columns df"
proof -
  from assms obtain y first y1 where
    g: "get_column df (Named ''label'') = Inr y"
    and t1: "train_test_split R ambient df y (1/10) (Some 42) = Inr (first, df_test)"
    and g1: "get_column first (Named ''label'') = Inr y1"
    and t2: "train_test_split R ambient first y1 (1/10) (Some 42) = Inr (df_train, df_val)"
    unfolding split_dataset_def by (auto simp: and_then_Inr)
  from get_column_map[OF g] obtain j where
    j: "position_of (Named ''label'') (columns df) = Some j"
    and y: "y = map (\<lambda>(i, r). r ! j) (rows df)"
    by blast
  from t1 have c: "columns first = columns df"
    by (auto simp: train_test_split_def and_then_Inr iloc_def split: if_splits)
  from g1 labels_of_same_columns(2)[OF j c] have y1: "y1 = map (\<lambda>(i, r). r ! j) (rows first)"
    by simp
  show ?thesis
    using that[OF j] t1 t2 c unfolding y y1 by blast
qed

section \<open>The split is a partition\<close>

lemma split_dataset_headlines:
  "split_dataset rotating 0 headlines = Inr (headlines_train, headlines_val, headlines_test)"
  by code_simp

lemma disjoint_parts:
  assumes "mset xs + mset ys + mset zs = mset ws" and "distinct ws"
  shows "set xs \<inter> set ys = {}" and "set xs \<inter> set zs = {}" and "set ys \<inter> set zs = {}"
proof -
  have "mset (xs @ ys @ zs) = mset ws" using assms(1) by (simp add: ac_simps)
  then have "distinct (xs @ ys @ zs) = distinct ws" by (rule mset_eq_imp_distinct_iff)
  with assms(2) have "distinct (xs @ ys @ zs)" by simp
  then show "set xs \<inter> set ys = {}" and "set xs \<inter> set zs = {}" and "set ys \<inter> set zs = {}"
    by auto
qed

text \<open>
  C2. Whenever the two-stage split returns, its three frames partition the input
  frame: every row of the input (with its index label) is a row of exactly one of the
  training, validation and test frames, so the three row counts sum to the input's row
  count, and with distinct index labels, as ingestion gives them, no index label is in
  two of the frames.
\<close>

theorem split_dataset_partition:
  assumes "permutes R"
    and "split_dataset R ambient df = Inr (df_train, df_val, df_test)"
  shows "mset (rows df_train) + mset (rows df_val) + mset (rows df_test) = mset (rows df)
    \<and> n_rows df_train + n_rows df_val + n_rows df_test = n_rows df
    \<and> (distinct (index_of df) \<longrightarrow>
          set (index_of df_train) \<inter> set (index_of df_val) = {}
        \<and> set (index_of df_train) \<inter> set (index_of df_test) = {}
        \<and> set (index_of df_val) \<inter> set (index_of df_test) = {})"
proof -
  from assms(2) obtain j first where
    t1: "train_test_split R ambient df (map (\<lambda>(i, r). r ! j) (rows df)) (1/10) (Some 42)
           = Inr (first, df_test)"
    and t2: "train_test_split R ambient first (map (\<lambda>(i, r). r ! j) (rows first)) (1/10) (Some 42)
           = Inr (df_train, df_val)"
    by (rule split_dataset_stages)
  have m1: "mset (rows first) + mset (rows df_test) = mset (rows df)"
    by (rule train_test_split_props(1)[OF assms(1) refl t1])
  have m2: "mset (rows df_train) + mset (rows df_val) = mset (rows first)"
    by (rule train_test_split_props(1)[OF assms(1) refl t2])
  from m1 m2 have m: "mset (rows df_train) + mset (rows df_val) + mset (rows df_test) = mset (rows df)"
    by simp
  then have "size (mset (rows df_train) + mset (rows df_val) + mset (rows df_test))
      = size (mset (rows df))"
    by simp
  then have n: "n_rows df_train + n_rows df_val + n_rows df_test = n_rows df"
    by (simp add: n_rows_def)
  have "image_mset fst (mset (rows df_train) + mset (rows df_val) + mset (rows df_test))
      = image_mset fst (mset (rows df))"
    by (simp only: m)
  then have i: "mset (index_of df_train) + mset (index_of df_val) + mset (index_of df_test)
      = mset (index_of df)"
    by (simp add: index_of_def)
  show ?thesis
    using m n disjoint_parts[OF i] by blast
qed

theorem split_dataset_partition_witness:
  "split_dataset rotating 0 headlines = Inr (headlines_train, headlines_val, headlines_test)
   \<and> mset (rows headlines_train) + mset (rows headlines_val) + mset (rows headlines_test)
       = mset (rows headlines)
   \<and> n_rows headlines_train + n_rows headlines_val + n_rows headlines_test = n_rows headlines
   \<and> set (index_of headlines_train) \<inter> set (index_of headlines_val) = {}
   \<and> set (index_of headlines_train) \<inter> set (index_of headlines_test) = {}
   \<and> set (index_of headlines_val) \<inter> set (index_of headlines_test) = {}"
proof -
  have d: "distinct (index_of headlines)" by code_simp
  from split_dataset_partition [OF permutes_rotating split_dataset_headlines] d
    split_dataset_headlines
  show ?thesis by blast
qed

section \<open>The split keeps the class proportions up to rounding\<close>

lemma two_stage_close:
  fixes c x m N N1 n2 :: int
  assumes a: "\<bar>x * N - c * N1\<bar> < N" and b: "\<bar>m * N1 - x * n2\<bar> < N1"
    and n2: "0 \<le> n2" "n2 \<le> N1" and pos: "0 < N1" "0 < N"
  shows "\<bar>m * N - c * n2\<bar> < 2 * N" and "\<bar>(x - m) * N - c * (N1 - n2)\<bar> < 2 * N"
proof -
  have a': "\<bar>x * N - c * N1\<bar> \<le> N - 1" and b': "\<bar>m * N1 - x * n2\<bar> \<le> N1 - 1"
    using a b by simp_all
  have A: "n2 * \<bar>x * N - c * N1\<bar> \<le> N1 * (N - 1)"
  proof -
    have "n2 * \<bar>x * N - c * N1\<bar> \<le> n2 * (N - 1)" using a' n2(1) by (rule mult_left_mono)
    also have "\<dots> \<le> N1 * (N - 1)" using n2(2) pos(2) by (intro mult_right_mono) simp_all
    finally show ?thesis .
  qed
  have A2: "(N1 - n2) * \<bar>x * N - c * N1\<bar> \<le> N1 * (N - 1)"
  proof -
    have "(N1 - n2) * \<bar>x * N - c * N1\<bar> \<le> (N1 - n2) * (N - 1)"
      using a' n2(2) by (intro mult_left_mono) simp_all
    also have "\<dots> \<le> N1 * (N - 1)" using n2(1) pos(2) by (intro mult_right_mono) simp_all
    finally show ?thesis .
  qed
  have B: "N * \<bar>m * N1 - x * n2\<bar> \<le> N * (N1 - 1)"
    using b' pos(2) by (intro mult_left_mono) simp_all
  have "(m * N - c * n2) * N1 = N * (m * N1 - x * n2) + n2 * (x * N - c * N1)"
    by (simp add: algebra_simps)
  then have "\<bar>(m * N - c * n2) * N1\<bar> = \<bar>N * (m * N1 - x * n2) + n2 * (x * N - c * N1)\<bar>"
    by (simp only:)
  moreover have "\<bar>(m * N - c * n2) * N1\<bar> = \<bar>m * N - c * n2\<bar> * N1"
    using pos(1) by (simp add: abs_mult)
  ultimately have "\<bar>m * N - c * n2\<bar> * N1 = \<bar>N * (m * N1 - x * n2) + n2 * (x * N - c * N1)\<bar>"
    by simp
  also have "\<dots> \<le> \<bar>N * (m * N1 - x * n2)\<bar> + \<bar>n2 * (x * N - c * N1)\<bar>"
    by (rule abs_triangle_ineq)
  also have "\<dots> = N * \<bar>m * N1 - x * n2\<bar> + n2 * \<bar>x * N - c * N1\<bar>"
    using pos(2) n2(1) by (simp add: abs_mult)
  also have "\<dots> \<le> N * (N1 - 1) + N1 * (N - 1)" using A B by (rule add_mono[rotated])
  also have "\<dots> < 2 * N * N1" using pos by (simp add: algebra_simps)
  finally have "\<bar>m * N - c * n2\<bar> * N1 < (2 * N) * N1" .
  then show "\<bar>m * N - c * n2\<bar> < 2 * N" using pos(1) by (simp only: mult_less_cancel_right)
  have "((x - m) * N - c * (N1 - n2)) * N1
      = (N1 - n2) * (x * N - c * N1) - N * (m * N1 - x * n2)"
    by (simp add: algebra_simps)
  then have "\<bar>((x - m) * N - c * (N1 - n2)) * N1\<bar>
      = \<bar>(N1 - n2) * (x * N - c * N1) - N * (m * N1 - x * n2)\<bar>"
    by (simp only:)
  moreover have "\<bar>((x - m) * N - c * (N1 - n2)) * N1\<bar> = \<bar>(x - m) * N - c * (N1 - n2)\<bar> * N1"
    using pos(1) by (simp add: abs_mult)
  ultimately have "\<bar>(x - m) * N - c * (N1 - n2)\<bar> * N1
      = \<bar>(N1 - n2) * (x * N - c * N1) - N * (m * N1 - x * n2)\<bar>"
    by simp
  also have "\<dots> \<le> \<bar>(N1 - n2) * (x * N - c * N1)\<bar> + \<bar>N * (m * N1 - x * n2)\<bar>"
    by (rule abs_triangle_ineq4)
  also have "\<dots> = (N1 - n2) * \<bar>x * N - c * N1\<bar> + N * \<bar>m * N1 - x * n2\<bar>"
    using pos(2) n2(2) by (simp add: abs_mult)
  also have "\<dots> \<le> N1 * (N - 1) + N * (N1 - 1)" using A2 B by (rule add_mono)
  also have "\<dots> < 2 * N * N1" using pos by (simp add: algebra_simps)
  finally have "\<bar>(x - m) * N - c * (N1 - n2)\<bar> * N1 < (2 * N) * N1" .
  then show "\<bar>(x - m) * N - c * (N1 - n2)\<bar> < 2 * N"
    using pos(1) by (simp only: mult_less_cancel_right)
qed

text \<open>
  C3 as stated fails: of the thirteen headlines seven are neutral, and the test frame
  of two rows holds one neutral row, so the fraction is one half in the test frame and
  seven thirteenths in the full frame.
\<close>

theorem split_dataset_fraction_counterexample:
  "split_dataset rotating 0 headlines = Inr (headlines_train, headlines_val, headlines_test)
   \<and> label_fraction headlines_test (Num 0) = 1 / 2
   \<and> label_fraction headlines (Num 0) = 7 / 13"
proof -
  have "label_fraction headlines_test (Num 0) = 1 / 2" by code_simp
  moreover have "label_fraction headlines (Num 0) = 7 / 13" by code_simp
  ultimately show ?thesis using split_dataset_headlines by simp
qed

text \<open>
  C3 (as the code has it). Whenever the two-stage split returns, every subset keeps the
  class proportions of the full frame up to rounding: for every label, the number of
  rows that carry it in the test frame differs from the label's fraction in the full
  frame times the size of the test frame by less than one row, and in the training and
  validation frames by less than two rows. (Each call of the stratified split gives
  every class its share of either part rounded down or up.)
\<close>

theorem split_dataset_stratified:
  assumes "permutes R"
    and "split_dataset R ambient df = Inr (df_train, df_val, df_test)"
  shows "\<bar>label_count df_test c * n_rows df - label_count df c * n_rows df_test\<bar> < n_rows df
    \<and> \<bar>label_count df_train c * n_rows df - label_count df c * n_rows df_train\<bar> < 2 * n_rows df
    \<and> \<bar>label_count df_val c * n_rows df - label_count df c * n_rows df_val\<bar> < 2 * n_rows df"
proof -
  from assms(2) obtain j first where
    j: "position_of (Named ''label'') (columns df) = Some j"
    and t1: "train_test_split R ambient df (map (\<lambda>(i, r). r ! j) (rows df)) (1/10) (Some 42)
           = Inr (first, df_test)"
    and t2: "train_test_split R ambient first (map (\<lambda>(i, r). r ! j) (rows first)) (1/10) (Some 42)
           = Inr (df_train, df_val)"
    and cf: "columns first = columns df"
    by (rule split_dataset_stages)
  note p1 = train_test_split_props[OF assms(1) refl t1]
  note p2 = train_test_split_props[OF assms(1) refl t2]
  have l0: "labels_of df = map (\<lambda>(i, r). r ! j) (rows df)"
    by (rule labels_of_same_columns(1)[OF j refl])
  have l1: "labels_of first = map (\<lambda>(i, r). r ! j) (rows first)"
    by (rule labels_of_same_columns(1)[OF j cf])
  have lt: "labels_of df_test = map (\<lambda>(i, r). r ! j) (rows df_test)"
    by (rule labels_of_same_columns(1)[OF j p1(3)])
  have ltr: "labels_of df_train = map (\<lambda>(i, r). r ! j) (rows df_train)"
    using p2(2) cf by (intro labels_of_same_columns(1)[OF j]) simp
  have lv: "labels_of df_val = map (\<lambda>(i, r). r ! j) (rows df_val)"
    using p2(3) cf by (intro labels_of_same_columns(1)[OF j]) simp
  define N where "N = n_rows df"
  define N1 where "N1 = n_rows first"
  define n2 where "n2 = n_rows df_train"
  define cc where "cc = label_count df c"
  define x where "x = label_count first c"
  define m where "m = label_count df_train c"
  have s1: "rounded_share x cc N1 N" and u: "label_count df_test c = cc - x"
    using p1(7) by (simp_all add: x_def cc_def N1_def N_def label_count_def n_rows_def l0 l1 lt)
  have s2: "rounded_share m x n2 N1" and w: "label_count df_val c = x - m"
    using p2(7) by (simp_all add: x_def m_def N1_def n2_def label_count_def n_rows_def l1 ltr lv)
  have "size (mset (rows first) + mset (rows df_test)) = size (mset (rows df))"
    by (simp only: p1(1))
  then have nt: "n_rows df_test = N - N1" by (simp add: n_rows_def N_def N1_def)
  have "size (mset (rows df_train) + mset (rows df_val)) = size (mset (rows first))"
    by (simp only: p2(1))
  then have nv: "n_rows df_val = N1 - n2" by (simp add: n_rows_def N1_def n2_def)
  have "0 < n_rows first" "0 < n_rows df_test" "0 \<le> n_rows df_val" "0 \<le> n_rows df_train"
    using p1(4,5) by (simp_all add: n_rows_def)
  then have pos: "0 < N1" "0 < N" "0 \<le> n2" "n2 \<le> N1"
    using nt nv by (simp_all add: N1_def n2_def)
  have a: "\<bar>x * N - cc * N1\<bar> < N" by (rule rounded_share_close[OF s1 pos(2)])
  have b: "\<bar>m * N1 - x * n2\<bar> < N1" by (rule rounded_share_close[OF s2 pos(1)])
  have "(cc - x) * N - cc * (N - N1) = - (x * N - cc * N1)" by (simp add: algebra_simps)
  then have "\<bar>(cc - x) * N - cc * (N - N1)\<bar> < N" using a by simp
  moreover note two_stage_close[OF a b pos(3,4,1,2)]
  ultimately show ?thesis
    unfolding u w nt nv N_def[symmetric] n2_def[symmetric] cc_def[symmetric] m_def[symmetric]
    by simp
qed

theorem split_dataset_stratified_witness:
  "split_dataset rotating 0 headlines = Inr (headlines_train, headlines_val, headlines_test)
   \<and> \<bar>label_count headlines_test (Num 0) * n_rows headlines
        - label_count headlines (Num 0) * n_rows headlines_test\<bar> < n_rows headlines
   \<and> \<bar>label_count headlines_train (Num 0) * n_rows headlines
        - label_count headlines (Num 0) * n_rows headlines_train\<bar> < 2 * n_rows headlines
   \<and> \<bar>label_count headlines_val (Num 0) * n_rows headlines
        - label_count headlines (Num 0) * n_rows headlines_val\<bar> < 2 * n_rows headlines"
  using split_dataset_stratified [OF permutes_rotating split_dataset_headlines, of "Num 0"]
    split_dataset_headlines
  by simp

section \<open>The split does not depend on the ambient generator\<close>

lemma check_random_state_seeded: "check_random_state R ambient (Some s) = seeded R s"
  by (simp add: check_random_state_def)

lemma stratified_shuffle_split_seeded:
  "stratified_shuffle_split R ambient1 (Some s) n_train n_test y
   = stratified_shuffle_split R ambient2 (Some s) n_train n_test y"
  unfolding stratified_shuffle_split_def check_random_state_seeded ..

lemma train_test_split_seeded:
  "train_test_split R ambient1 df y test_size (Some s)
   = train_test_split R ambient2 df y test_size (Some s)"
  unfolding train_test_split_def stratified_shuffle_split_seeded[of R ambient1 s _ _ _ ambient2] ..

text \<open>
  C8. The split is deterministic: both calls pass \<^verbatim>\<open>random_state=42\<close>, so each draws from
  a generator freshly seeded with 42 and never from the ambient generator. Two runs on
  the same frame, whatever the state of the ambient generator at each, return the same
  training, validation and test frames (or raise the same exception).
\<close>

theorem split_dataset_deterministic:
  "split_dataset R ambient1 df = split_dataset R ambient2 df"
  unfolding split_dataset_def train_test_split_seeded[of R ambient1 _ _ _ 42 ambient2] ..

section \<open>Failures of library calls reach the caller\<close>



end
